theory Spec2Isabelle
  imports Main "HOL-Library.Word"
begin

section \<open>Data model of \<open>src/index.ts\<close>\<close>

text \<open>
  A sample is the 32-bit pattern of an IEEE-754 binary32 number: the adapter only ever
  copies samples between \<open>Float32Array\<close>s, which moves the bits unchanged, and a new
  \<open>Float32Array\<close> is filled with \<open>+0\<close>, the pattern \<open>0\<close>.

  The \<open>Float32Array\<close> objects the adapter allocates live in an explicit store: a
  reference is an index into the store, so two fields that hold the same reference denote
  the same object. References come only from \<open>new Float32Array\<close>, so the code never
  holds one that is outside the store; properties of arbitrary states assume as much
  (\<open>refs_ok\<close> below). The arrays of references themselves are never changed by the
  adapter once built, so they are plain lists. The blocks the host passes to \<open>process\<close> are the host's own storage;
  \<open>inputs\<close> is only read and \<open>outputs\<close> only written, so both are passed as values
  and \<open>outputs\<close> is returned updated.
\<close>

type_synonym sample = "32 word"
type_synonym f32array = "sample list"
type_synonym ref = nat
type_synonym store = "f32array list"
type_synonym block = "f32array list list"

datatype error = TypeError | RangeError | UserError

definition WEB_AUDIO_BLOCK_SIZE :: nat where
  "WEB_AUDIO_BLOCK_SIZE = 128"

text \<open>
  The fields of \<open>CustomHopWorkletProcessor\<close>. The hop size is taken to be a
  non-negative integer, so \<open>_hopSize\<close>, \<open>_readPointer\<close> and \<open>_writePointer\<close>
  are natural numbers (the only operations on the pointers are \<open>= 0\<close>,
  \<open>= hopSize\<close> and \<open>+= 128\<close>, exact on doubles below \<open>2^53\<close>).
  \<open>_inputBuffers\<close> is an array of arrays of references. \<open>_outputBuffers\<close> is the
  object \<open>{ ...this._inputBuffers }\<close>, whose keys are \<open>0 .. n-1\<close>: it is represented by
  the list of its property values in key order, so that \<open>_outputBuffers[i]\<close> is
  \<open>undefined\<close> exactly when \<open>i\<close> is not below the length of the list.
  \<open>user\<close> stands for whatever further fields a subclass has; only \<open>processBuffered\<close>
  touches it.

  The last two fields are not fields of the class. \<open>pbCalls\<close> records, for each
  invocation of \<open>processBuffered\<close>, the contents of its two arguments at the moment of
  the call; \<open>accSteps\<close> counts the executions of \<open>_inputBuffer\<close> that completed
  since the pointers were last set to zero. No operation reads them.
\<close>

record 'u adapter =
  hopSize :: nat
  outputBuffers :: "ref list list"
  inputBuffers :: "ref list list"
  readPointer :: nat
  writePointer :: nat
  store :: store
  user :: 'u
  pbCalls :: "(block \<times> block) list"
  accSteps :: nat

text \<open>
  The overridable method \<open>processBuffered(inputs, outputs)\<close>: it receives the two
  buffer sets (as references), may read and write the store and the subclass's own
  fields, and returns a boolean or throws. The pointers and the buffer fields are
  private to the adapter, so the method cannot assign them; it is taken not to call
  \<open>setInputAndChannelCount\<close>.
\<close>

type_synonym 'u processBuffered =
  "ref list list \<Rightarrow> ref list list \<Rightarrow> 'u \<times> store \<Rightarrow> (error + bool) \<times> 'u \<times> store"

subsection \<open>Typed-array primitives\<close>

text \<open>\<open>new Float32Array(n)\<close>: a fresh object of \<open>n\<close> zero samples.\<close>

definition new_Float32Array :: "nat \<Rightarrow> store \<Rightarrow> ref \<times> store" where
  "new_Float32Array n h = (length h, h @ [replicate n 0])"

text \<open>\<open>Array.from({ length: n }, f)\<close>: calls \<open>f\<close> \<open>n\<close> times, in index order.\<close>

fun array_from :: "nat \<Rightarrow> (store \<Rightarrow> 'a \<times> store) \<Rightarrow> store \<Rightarrow> 'a list \<times> store" where
  "array_from 0 f h = ([], h)"
| "array_from (Suc n) f h =
     (case f h of (x, h1) \<Rightarrow>
        (case array_from n f h1 of (xs, h2) \<Rightarrow> (x # xs, h2)))"

text \<open>
  \<open>a.subarray(b, e)\<close> for non-negative \<open>b\<close>, \<open>e\<close>: both ends are clamped to the
  length, and the view has \<open>max (e - b) 0\<close> elements.
\<close>

definition subarray :: "f32array \<Rightarrow> nat \<Rightarrow> nat \<Rightarrow> f32array" where
  "subarray a b e =
     (let len = length a; b' = min b len; e' = min e len
      in take (e' - b') (drop b' a))"

text \<open>
  \<open>target.set(source)\<close>, with no offset argument, so the offset is \<open>0\<close>: a
  \<open>RangeError\<close> when the source is longer than the target, otherwise the source
  replaces the first \<open>length source\<close> samples of the target.
\<close>

definition f32_set :: "f32array \<Rightarrow> f32array \<Rightarrow> error + f32array" where
  "f32_set target source =
     (if length target < length source then Inl RangeError
      else Inr (source @ drop (length source) target))"

text \<open>
  A counting \<open>for\<close> loop whose body may throw: the indices are visited in order, and
  the first exception ends the loop with the state reached so far.
\<close>

fun for_each :: "(nat \<Rightarrow> 's \<Rightarrow> error option \<times> 's) \<Rightarrow> nat list \<Rightarrow> 's \<Rightarrow> error option \<times> 's" where
  "for_each f [] s = (None, s)"
| "for_each f (i # is) s =
     (case f i s of
        (Some e, s') \<Rightarrow> (Some e, s')
      | (None, s') \<Rightarrow> for_each f is s')"

text \<open>The contents of a buffer set.\<close>

definition deref :: "store \<Rightarrow> ref list list \<Rightarrow> block" where
  "deref h bs = map (map (\<lambda>r. h ! r)) bs"

subsection \<open>Construction and reconfiguration\<close>

definition setInputAndChannelCount :: "nat \<Rightarrow> nat \<Rightarrow> 'u adapter \<Rightarrow> 'u adapter" where
  "setInputAndChannelCount inputCount channelCount st =
     (case array_from inputCount
             (array_from channelCount (new_Float32Array (hopSize st))) (store st) of
        (ib, h) \<Rightarrow> st\<lparr>inputBuffers := ib, outputBuffers := ib, store := h\<rparr>)"

text \<open>
  The constructor. Before \<open>setInputAndChannelCount\<close> runs the buffer fields are
  unassigned and the store holds nothing of the adapter; the placeholders below are
  all overwritten.
\<close>

definition constructor :: "nat \<Rightarrow> nat \<Rightarrow> nat \<Rightarrow> 'u \<Rightarrow> 'u adapter" where
  "constructor hop inputCount channelCount u =
     (let st0 = \<lparr>hopSize = hop, outputBuffers = [], inputBuffers = [],
                 readPointer = 0, writePointer = 0, store = [], user = u,
                 pbCalls = [], accSteps = 0\<rparr>;
          st1 = setInputAndChannelCount inputCount channelCount st0
      in st1\<lparr>readPointer := hop, writePointer := 0\<rparr>)"

subsection \<open>The private helpers\<close>

text \<open>
  The argument \<open>input[i][j]\<close> of \<open>set\<close>: reading a property of \<open>undefined\<close>
  throws a \<open>TypeError\<close>, and so does \<open>set(undefined)\<close>.
\<close>

definition input_at :: "block \<Rightarrow> nat \<Rightarrow> nat \<Rightarrow> error + f32array" where
  "input_at input i j =
     (if i < length input then
        (if j < length (input ! i) then Inr (input ! i ! j) else Inl TypeError)
      else Inl TypeError)"

definition inputBuffer_body :: "ref list list \<Rightarrow> block \<Rightarrow> nat \<Rightarrow> nat \<Rightarrow> store \<Rightarrow> error option \<times> store" where
  "inputBuffer_body ib input i j h =
     (case input_at input i j of
        Inl e \<Rightarrow> (Some e, h)
      | Inr src \<Rightarrow>
          (case f32_set (h ! (ib ! i ! j)) src of
             Inl e \<Rightarrow> (Some e, h)
           | Inr a \<Rightarrow> (None, h[ib ! i ! j := a])))"

definition inputBuffer :: "block \<Rightarrow> 'u adapter \<Rightarrow> error option \<times> 'u adapter" where
  "inputBuffer input st =
     (let ib = inputBuffers st in
      case for_each (\<lambda>i. for_each (inputBuffer_body ib input i) [0..<length (ib ! i)])
             [0..<length ib] (store st) of
        (Some e, h) \<Rightarrow> (Some e, st\<lparr>store := h\<rparr>)
      | (None, h) \<Rightarrow>
          (None, st\<lparr>store := h,
                    writePointer := writePointer st + WEB_AUDIO_BLOCK_SIZE,
                    accSteps := accSteps st + 1\<rparr>))"

text \<open>
  The innermost statement of \<open>_outputShiftTo\<close>. \<open>outputs[i][j]\<close> exists since both
  indices run over the lengths of \<open>outputs\<close>; \<open>this._outputBuffers[i][j]\<close> need not.
\<close>

definition outputShiftTo_body :: "'u adapter \<Rightarrow> nat \<Rightarrow> nat \<Rightarrow> block \<Rightarrow> error option \<times> block" where
  "outputShiftTo_body st i j outs =
     (let ob = outputBuffers st in
      if i < length ob then
        (if j < length (ob ! i) then
           (case f32_set (outs ! i ! j)
                   (subarray (store st ! (ob ! i ! j)) (readPointer st)
                      (readPointer st + WEB_AUDIO_BLOCK_SIZE)) of
              Inl e \<Rightarrow> (Some e, outs)
            | Inr a \<Rightarrow> (None, outs[i := (outs ! i)[j := a]]))
         else (Some TypeError, outs))
      else (Some TypeError, outs))"

definition outputShiftTo :: "block \<Rightarrow> 'u adapter \<Rightarrow> error option \<times> block \<times> 'u adapter" where
  "outputShiftTo outputs st =
     (case for_each (\<lambda>i outs. for_each (outputShiftTo_body st i) [0..<length (outs ! i)] outs)
             [0..<length outputs] outputs of
        (Some e, outs) \<Rightarrow> (Some e, outs, st)
      | (None, outs) \<Rightarrow>
          (None, outs, st\<lparr>readPointer := readPointer st + WEB_AUDIO_BLOCK_SIZE\<rparr>))"

definition inputHasEnough :: "'u adapter \<Rightarrow> bool" where
  "inputHasEnough st \<longleftrightarrow> hopSize st \<le> writePointer st"

definition outputHasMore :: "'u adapter \<Rightarrow> bool" where
  "outputHasMore st \<longleftrightarrow> readPointer st < hopSize st"

definition resetPointers :: "'u adapter \<Rightarrow> 'u adapter" where
  "resetPointers st = st\<lparr>readPointer := 0, writePointer := 0, accSteps := 0\<rparr>"

text \<open>
  The call \<open>this.processBuffered(this._inputBuffers, this._outputBuffers)\<close>, with the
  invocation recorded before the method body runs.
\<close>

definition call_processBuffered :: "'u processBuffered \<Rightarrow> 'u adapter \<Rightarrow> (error + bool) \<times> 'u adapter" where
  "call_processBuffered pb st =
     (let st1 = st\<lparr>pbCalls := pbCalls st @
                     [(deref (store st) (inputBuffers st), deref (store st) (outputBuffers st))]\<rparr>
      in case pb (inputBuffers st1) (outputBuffers st1) (user st1, store st1) of
           (r, u, h) \<Rightarrow> (r, st1\<lparr>user := u, store := h\<rparr>))"

subsection \<open>\<open>process\<close>\<close>

definition process :: "'u processBuffered \<Rightarrow> block \<Rightarrow> block \<Rightarrow> 'u adapter \<Rightarrow> (error + bool) \<times> block \<times> 'u adapter" where
  "process pb inputs outputs st =
     (case inputBuffer inputs st of
        (Some e, st1) \<Rightarrow> (Inl e, outputs, st1)
      | (None, st1) \<Rightarrow>
          if outputHasMore st1 then
            (case outputShiftTo outputs st1 of
               (Some e, outs, st2) \<Rightarrow> (Inl e, outs, st2)
             | (None, outs, st2) \<Rightarrow> (Inr True, outs, st2))
          else if \<not> inputHasEnough st1 then (Inr True, outputs, st1)
          else
            (case call_processBuffered pb st1 of
               (Inl e, st2) \<Rightarrow> (Inl e, outputs, st2)
             | (Inr False, st2) \<Rightarrow> (Inr False, outputs, st2)
             | (Inr True, st2) \<Rightarrow>
                 (case outputShiftTo outputs (resetPointers st2) of
                    (Some e, outs, st3) \<Rightarrow> (Inl e, outs, st3)
                  | (None, outs, st3) \<Rightarrow> (Inr True, outs, st3))))"

subsection \<open>The host's calling loop\<close>

text \<open>
  The host calls \<open>process\<close> once per block, each time with an input block and an
  output block to fill, and stops calling after the first call that does not return
  \<open>true\<close> (a \<open>false\<close> result or an exception). \<open>run\<close> returns what each call
  returned, the output block as the call left it, and the adapter after the last call.
\<close>

fun run :: "'u processBuffered \<Rightarrow> (block \<times> block) list \<Rightarrow> 'u adapter \<Rightarrow>
    ((error + bool) \<times> block) list \<times> 'u adapter" where
  "run pb [] st = ([], st)"
| "run pb (c # cs) st =
     (case process pb (fst c) (snd c) st of
        (r, outs, st') \<Rightarrow>
          if r = Inr True then
            (case run pb cs st' of (rs, st'') \<Rightarrow> ((r, outs) # rs, st''))
          else ([(r, outs)], st'))"

subsection \<open>Notions used to state the properties\<close>

text \<open>
  The references \<open>Array.from\<close> hands out from a store that holds \<open>base\<close> objects:
  \<open>m\<close> rows of \<open>n\<close> consecutive new references.
\<close>

definition fresh_rows :: "nat \<Rightarrow> nat \<Rightarrow> nat \<Rightarrow> ref list list" where
  "fresh_rows base m n = map (\<lambda>i. [base + i * n..<base + i * n + n]) [0..<m]"

text \<open>A buffer set of shape \<open>[m][n][k]\<close> with every sample zero.\<close>

definition zero_block :: "nat \<Rightarrow> nat \<Rightarrow> nat \<Rightarrow> block" where
  "zero_block m n k = replicate m (replicate n (replicate k 0))"

text \<open>
  A host block of the configured topology: one array of \<open>WEB_AUDIO_BLOCK_SIZE\<close>
  samples for every buffer of the buffer set \<open>bs\<close>.
\<close>

definition fixed_block :: "ref list list \<Rightarrow> block \<Rightarrow> bool" where
  "fixed_block bs blk \<longleftrightarrow>
     list_all2 (list_all2 (\<lambda>r a. length a = WEB_AUDIO_BLOCK_SIZE)) bs blk"

text \<open>Every reference of the buffer set denotes an object of the store, of \<open>n\<close> samples.\<close>

definition refs_ok :: "store \<Rightarrow> nat \<Rightarrow> ref list list \<Rightarrow> bool" where
  "refs_ok h n bs \<longleftrightarrow> list_all (list_all (\<lambda>r. r < length h \<and> length (h ! r) = n)) bs"

text \<open>
  Two stores with the same objects, each of the same length and with the same samples
  from index \<open>WEB_AUDIO_BLOCK_SIZE\<close> on.
\<close>

definition tail_preserved :: "store \<Rightarrow> store \<Rightarrow> bool" where
  "tail_preserved h h' \<longleftrightarrow>
     list_all2 (\<lambda>a a'. length a' = length a \<and>
                  drop WEB_AUDIO_BLOCK_SIZE a' = drop WEB_AUDIO_BLOCK_SIZE a) h h'"

text \<open>
  The output block after \<open>_outputShiftTo\<close>: every array holds the view
  \<open>subarray(readPointer, readPointer + 128)\<close> of its drain buffer, followed by whatever
  it held beyond the length of that view.
\<close>

definition drained :: "'u adapter \<Rightarrow> block \<Rightarrow> block" where
  "drained st outs =
     map (\<lambda>i. map (\<lambda>j.
            let s = subarray (store st ! (outputBuffers st ! i ! j)) (readPointer st)
                      (readPointer st + WEB_AUDIO_BLOCK_SIZE)
            in s @ drop (length s) (outs ! i ! j)) [0..<length (outs ! i)])
       [0..<length outs]"

text \<open>
  The relation between the pointers that holds between two calls of a run that started
  at construction: the write pointer counts whole blocks, at least one more block fits
  below the hop size, and the read pointer is either at the hop size (nothing pending)
  or one block ahead of the write pointer (a drain is in progress).
\<close>

definition pointers_inv :: "'u adapter \<Rightarrow> bool" where
  "pointers_inv st \<longleftrightarrow>
     WEB_AUDIO_BLOCK_SIZE dvd hopSize st \<and>
     writePointer st = accSteps st * WEB_AUDIO_BLOCK_SIZE \<and>
     writePointer st + WEB_AUDIO_BLOCK_SIZE \<le> hopSize st \<and>
     (readPointer st = hopSize st \<or> readPointer st = writePointer st + WEB_AUDIO_BLOCK_SIZE)"

text \<open>
  Both pointers lie between \<open>0\<close> and the hop size, and the write pointer is the number
  of accumulate steps since the pointers were last reset, times the block size.
\<close>

definition pointers_bounded :: "'u adapter \<Rightarrow> bool" where
  "pointers_bounded st \<longleftrightarrow>
     0 \<le> writePointer st \<and> writePointer st \<le> hopSize st \<and>
     0 \<le> readPointer st \<and> readPointer st \<le> hopSize st \<and>
     writePointer st = accSteps st * WEB_AUDIO_BLOCK_SIZE"

subsection \<open>Processing functions used in the examples\<close>

text \<open>
  \<open>processBuffered_default\<close> is the method of the class itself, which throws
  \<open>Error("Method not implemented.")\<close>. The others are overrides a subclass could
  supply: one fills every output buffer with a constant, one with the ramp
  \<open>0, 1, 2, \<dots>\<close>, and one reports failure.
\<close>

definition processBuffered_default :: "'u processBuffered" where
  "processBuffered_default inputs outputs s = (Inl UserError, s)"

definition pb_fill :: "sample \<Rightarrow> 'u processBuffered" where
  "pb_fill v inputs outputs s =
     (Inr True, fst s, fold (\<lambda>r h. h[r := replicate (length (h ! r)) v]) (concat outputs) (snd s))"

definition pb_ramp :: "'u processBuffered" where
  "pb_ramp inputs outputs s =
     (Inr True, fst s, fold (\<lambda>r h. h[r := map of_nat [0..<length (h ! r)]]) (concat outputs) (snd s))"

definition pb_false :: "'u processBuffered" where
  "pb_false inputs outputs s = (Inr False, s)"

section \<open>Allocation, construction and reconfiguration\<close>


lemma array_from_alloc:
  assumes f: "\<And>h. f h = (g (length h), h @ as)"
  shows "array_from m f h =
     (map (\<lambda>i. g (length h + i * length as)) [0..<m], h @ concat (replicate m as))"
proof (induction m arbitrary: h)
  case 0
  then show ?case by simp
next
  case (Suc m)
  have "map (\<lambda>i. g (length h + i * length as)) [0..<Suc m]
      = g (length h) # map (\<lambda>i. g (length h + i * length as)) (map Suc [0..<m])"
    by (simp add: upt_conv_Cons map_Suc_upt del: upt_Suc)
  also have "\<dots> = g (length h) # map (\<lambda>i. g (length (h @ as) + i * length as)) [0..<m]"
    by (simp add: add.assoc add.commute add.left_commute)
  finally have m: "map (\<lambda>i. g (length h + i * length as)) [0..<Suc m]
      = g (length h) # map (\<lambda>i. g (length (h @ as) + i * length as)) [0..<m]" .
  have "array_from (Suc m) f h =
      (case f h of (x, h1) \<Rightarrow> (x # fst (array_from m f h1), snd (array_from m f h1)))"
    by (simp add: case_prod_unfold)
  also have "\<dots> = (g (length h) # fst (array_from m f (h @ as)), snd (array_from m f (h @ as)))"
    by (subst f) simp
  finally show ?case
    unfolding Suc m by simp

qed

lemma array_from_new:
  "array_from n (new_Float32Array k) h =
     ([length h..<length h + n], h @ replicate n (replicate k 0))"
proof -
  have "array_from n (new_Float32Array k) h =
     (map (\<lambda>i. length h + i * length [replicate k (0::sample)]) [0..<n],
      h @ concat (replicate n [replicate k 0]))"
    by (rule array_from_alloc) (simp add: new_Float32Array_def)
  moreover have "map (\<lambda>i. length h + i) [0..<n] = [length h..<length h + n]"
    by (induction n) simp_all
  moreover have "concat (replicate n [a]) = replicate n a" for a :: f32array
    by (induction n) simp_all
  ultimately show ?thesis by simp
qed

lemma array_from_rows:
  "array_from m (array_from n (new_Float32Array k)) h =
     (fresh_rows (length h) m n, h @ replicate (m * n) (replicate k 0))"
proof -
  have "array_from m (array_from n (new_Float32Array k)) h =
     (map (\<lambda>i. (\<lambda>b. [b..<b + n]) (length h + i * length (replicate n (replicate k (0::sample))))) [0..<m],
      h @ concat (replicate m (replicate n (replicate k 0))))"
    by (rule array_from_alloc) (simp add: array_from_new)
  moreover have "concat (replicate m (replicate n a)) = replicate (m * n) a" for a :: f32array
    by (induction m) (simp_all add: replicate_add)
  ultimately show ?thesis by (simp add: fresh_rows_def)
qed

lemma deref_fresh:
  assumes "base = length h"
  shows "deref (h @ replicate (m * n) a) (fresh_rows base m n) = replicate m (replicate n a)"
proof -
  have "map (\<lambda>r. (h @ replicate (m * n) a) ! r) [base + i * n..<base + i * n + n]
        = replicate n a" if "i < m" for i
  proof -
    have "Suc i * n \<le> m * n" using that by (intro mult_le_mono1) simp
    then have b: "i * n + n \<le> m * n" by simp
    show ?thesis
    proof (rule nth_equalityI)
      show "length (map (\<lambda>r. (h @ replicate (m * n) a) ! r) [base + i * n..<base + i * n + n])
          = length (replicate n a)" by simp
    next
      fix j assume "j < length (map (\<lambda>r. (h @ replicate (m * n) a) ! r) [base + i * n..<base + i * n + n])"
      then have j: "j < n" by simp
      then have "i * n + j < m * n" using b by linarith
      then show "map (\<lambda>r. (h @ replicate (m * n) a) ! r) [base + i * n..<base + i * n + n] ! j
          = replicate n a ! j"
        using j assms by (simp add: nth_append add.assoc)
    qed
  qed
  then show ?thesis
    by (auto simp: deref_def fresh_rows_def intro!: replicate_eqI)
qed

lemma setInputAndChannelCount_eq:
  "setInputAndChannelCount ic cc st =
     st\<lparr>inputBuffers := fresh_rows (length (store st)) ic cc,
        outputBuffers := fresh_rows (length (store st)) ic cc,
        store := store st @ replicate (ic * cc) (replicate (hopSize st) 0)\<rparr>"
  by (simp add: setInputAndChannelCount_def array_from_rows)

text \<open>
  Claim C9. \<open>setInputAndChannelCount(inputCount, channelCount)\<close> replaces both buffer
  sets: the references are the \<open>inputCount * channelCount\<close> objects allocated by the
  call, every one of \<open>hopSize\<close> zero samples, so that both sets have the shape
  \<open>[inputCount][channelCount][hopSize]\<close> and hold only zeros. The read pointer, the
  write pointer and the hop size are left as they were.
\<close>

theorem setInputAndChannelCount_spec:
  "inputBuffers (setInputAndChannelCount ic cc st) = fresh_rows (length (store st)) ic cc
   \<and> outputBuffers (setInputAndChannelCount ic cc st) = fresh_rows (length (store st)) ic cc
   \<and> store (setInputAndChannelCount ic cc st)
       = store st @ replicate (ic * cc) (replicate (hopSize st) 0)
   \<and> deref (store (setInputAndChannelCount ic cc st))
         (inputBuffers (setInputAndChannelCount ic cc st)) = zero_block ic cc (hopSize st)
   \<and> deref (store (setInputAndChannelCount ic cc st))
         (outputBuffers (setInputAndChannelCount ic cc st)) = zero_block ic cc (hopSize st)
   \<and> readPointer (setInputAndChannelCount ic cc st) = readPointer st
   \<and> writePointer (setInputAndChannelCount ic cc st) = writePointer st
   \<and> hopSize (setInputAndChannelCount ic cc st) = hopSize st"
  by (simp add: setInputAndChannelCount_eq deref_fresh zero_block_def)

lemma constructor_eq:
  "constructor hop ic cc u =
     \<lparr>hopSize = hop, outputBuffers = fresh_rows 0 ic cc, inputBuffers = fresh_rows 0 ic cc,
      readPointer = hop, writePointer = 0,
      store = replicate (ic * cc) (replicate hop 0), user = u, pbCalls = [], accSteps = 0\<rparr>"
  by (simp add: constructor_def setInputAndChannelCount_eq)

text \<open>
  Claim C8. Construction with \<open>(hopSize, inputCount, channelCount)\<close> yields accumulation
  and drain buffer sets of shape \<open>[inputCount][channelCount][hopSize]\<close> with every
  sample zero, write pointer \<open>0\<close> and read pointer \<open>hopSize\<close>.
\<close>

theorem constructor_spec:
  "inputBuffers (constructor hop ic cc u) = fresh_rows 0 ic cc
   \<and> outputBuffers (constructor hop ic cc u) = fresh_rows 0 ic cc
   \<and> store (constructor hop ic cc u) = replicate (ic * cc) (replicate hop 0)
   \<and> deref (store (constructor hop ic cc u)) (inputBuffers (constructor hop ic cc u))
       = zero_block ic cc hop
   \<and> deref (store (constructor hop ic cc u)) (outputBuffers (constructor hop ic cc u))
       = zero_block ic cc hop
   \<and> writePointer (constructor hop ic cc u) = 0
   \<and> readPointer (constructor hop ic cc u) = hop"
  using deref_fresh [of 0 "[]" ic cc "replicate hop 0"]
  by (simp add: constructor_eq zero_block_def)



section \<open>The nested copying of \<open>_inputBuffer\<close> and \<open>_outputShiftTo\<close>\<close>


lemma for_each_append:
  "for_each f (xs @ ys) s =
     (case for_each f xs s of (Some e, s') \<Rightarrow> (Some e, s') | (None, s') \<Rightarrow> for_each f ys s')"
  by (induction xs arbitrary: s) (auto split: prod.splits option.splits)

lemma for_each_invariant:
  assumes init: "P 0 s"
    and step: "\<And>k t. k < n \<Longrightarrow> P k t \<Longrightarrow> \<exists>t'. f k t = (None, t') \<and> P (Suc k) t'"
  shows "\<exists>s'. for_each f [0..<n] s = (None, s') \<and> P n s'"
  using step
proof (induction n)
  case 0
  then show ?case using init by simp
next
  case (Suc n)
  then obtain s1 where s1: "for_each f [0..<n] s = (None, s1)" "P n s1"
    by (metis less_Suc_eq)
  from Suc.prems [of n s1] s1 obtain s2 where "f n s1 = (None, s2)" "P (Suc n) s2"
    by auto
  with s1 show ?case
    by (simp add: for_each_append)
qed

lemma fill_step:
  assumes "k < length xs" "length xs = length ys"
  shows "(take k xs @ drop k ys)[k := xs ! k] = take (Suc k) xs @ drop (Suc k) ys"
proof -
  have "drop k ys = ys ! k # drop (Suc k) ys"
    using assms by (simp add: Cons_nth_drop_Suc)
  then show ?thesis
    using assms by (simp add: take_Suc_conv_app_nth list_update_append)
qed

lemma fill_nth:
  assumes "k < length ys" "k \<le> length xs"
  shows "(take k xs @ drop k ys) ! k = ys ! k"
  using assms by (simp add: nth_append min_def)

lemma length_subarray: "length (subarray a b e) \<le> e - b"
  by (simp add: subarray_def Let_def)

lemma subarray_take_drop: "subarray a b e = take (e - b) (drop b a)"
  by (cases "b \<le> length a"; cases "e \<le> length a") (simp_all add: subarray_def Let_def min_def)

lemma fixed_blockD:
  assumes "fixed_block bs blk"
  shows "length blk = length bs"
    and "i < length bs \<Longrightarrow> length (blk ! i) = length (bs ! i)"
    and "i < length bs \<Longrightarrow> j < length (bs ! i) \<Longrightarrow> length (blk ! i ! j) = WEB_AUDIO_BLOCK_SIZE"
  using assms by (auto simp: fixed_block_def list_all2_conv_all_nth)

lemma outputShiftTo_row:
  assumes fb: "fixed_block (outputBuffers st) outs"
    and i: "i < length outs"
    and s: "length s = length outs" "s ! i = outs ! i"
  shows "for_each (outputShiftTo_body st i) [0..<length (s ! i)] s
         = (None, s[i := drained st outs ! i])"
proof -
  let ?D = "drained st outs ! i"
  let ?P = "\<lambda>k t. t = s[i := take k ?D @ drop k (outs ! i)]"
  have lenD: "length ?D = length (outs ! i)"
    using i by (simp add: drained_def)
  have i': "i < length (outputBuffers st)" and row: "length (outs ! i) = length (outputBuffers st ! i)"
    using fixed_blockD(1,2) [OF fb] i by auto
  have "\<exists>s'. for_each (outputShiftTo_body st i) [0..<length (s ! i)] s = (None, s') \<and>
          ?P (length (s ! i)) s'"
  proof (rule for_each_invariant)
    show "?P 0 s" using s list_update_id [of s i] by simp
  next
    fix k t assume k: "k < length (s ! i)" and t: "?P k t"
    have k': "k < length (outs ! i)" using k s by simp
    have ti: "t ! i = take k ?D @ drop k (outs ! i)"
      using t i s by simp
    then have tik: "t ! i ! k = outs ! i ! k"
      using k' lenD by (simp add: fill_nth)
    have lenB: "length (outs ! i ! k) = WEB_AUDIO_BLOCK_SIZE"
      using fixed_blockD(3) [OF fb i'] k' row by simp
    have Dk: "?D ! k = (let s = subarray (store st ! (outputBuffers st ! i ! k)) (readPointer st)
                      (readPointer st + WEB_AUDIO_BLOCK_SIZE)
            in s @ drop (length s) (outs ! i ! k))"
      using k' i by (simp add: drained_def)
    have sub: "length (subarray (store st ! (outputBuffers st ! i ! k)) (readPointer st)
                      (readPointer st + WEB_AUDIO_BLOCK_SIZE)) \<le> WEB_AUDIO_BLOCK_SIZE"
      using length_subarray [of _ "readPointer st" "readPointer st + WEB_AUDIO_BLOCK_SIZE"]
      by simp
    have body: "outputShiftTo_body st i k t = (None, t[i := (t ! i)[k := ?D ! k]])"
      using i' k' row sub lenB
      by (simp add: outputShiftTo_body_def f32_set_def tik Dk Let_def)
    have "t[i := (t ! i)[k := ?D ! k]] = s[i := take (Suc k) ?D @ drop (Suc k) (outs ! i)]"
      using t ti fill_step [of k ?D "outs ! i"] k' lenD by simp
    with body show "\<exists>t'. outputShiftTo_body st i k t = (None, t') \<and> ?P (Suc k) t'"
      by simp
  qed
  then show ?thesis
    using s lenD by simp
qed

lemma outputShiftTo_nested:
  assumes fb: "fixed_block (outputBuffers st) outs"
  shows "for_each (\<lambda>i t. for_each (outputShiftTo_body st i) [0..<length (t ! i)] t)
           [0..<length outs] outs = (None, drained st outs)"
proof -
  let ?D = "drained st outs"
  let ?P = "\<lambda>k t. t = take k ?D @ drop k outs"
  have lenD: "length ?D = length outs" by (simp add: drained_def)
  have "\<exists>s'. for_each (\<lambda>i t. for_each (outputShiftTo_body st i) [0..<length (t ! i)] t)
           [0..<length outs] outs = (None, s') \<and> ?P (length outs) s'"
  proof (rule for_each_invariant)
    show "?P 0 outs" by simp
  next
    fix k t assume k: "k < length outs" and t: "?P k t"
    have len: "length t = length outs" using t lenD k by simp
    have tk: "t ! k = outs ! k" using t k lenD by (simp add: fill_nth)
    have "for_each (outputShiftTo_body st k) [0..<length (t ! k)] t = (None, t[k := ?D ! k])"
      by (rule outputShiftTo_row [OF fb k len tk])
    moreover have "t[k := ?D ! k] = take (Suc k) ?D @ drop (Suc k) outs"
      using t fill_step [of k ?D outs] k lenD by simp
    ultimately show "\<exists>t'. for_each (outputShiftTo_body st k) [0..<length (t ! k)] t = (None, t')
        \<and> ?P (Suc k) t'" by simp
  qed
  then show ?thesis using lenD by simp
qed

lemma outputShiftTo_ok:
  assumes "fixed_block (outputBuffers st) outs"
  shows "outputShiftTo outs st =
     (None, drained st outs, st\<lparr>readPointer := readPointer st + WEB_AUDIO_BLOCK_SIZE\<rparr>)"
  by (simp add: outputShiftTo_def outputShiftTo_nested [OF assms])

lemma tail_preserved_iff:
  "tail_preserved h h' \<longleftrightarrow>
     length h' = length h \<and>
     (\<forall>r<length h. length (h' ! r) = length (h ! r) \<and>
        drop WEB_AUDIO_BLOCK_SIZE (h' ! r) = drop WEB_AUDIO_BLOCK_SIZE (h ! r))"
  by (auto simp: tail_preserved_def list_all2_conv_all_nth)

lemma tail_preserved_refl: "tail_preserved h h"
  by (simp add: tail_preserved_iff)

lemma tail_preserved_trans:
  "tail_preserved h h1 \<Longrightarrow> tail_preserved h1 h2 \<Longrightarrow> tail_preserved h h2"
  by (simp add: tail_preserved_iff)

lemma refs_ok_iff:
  "refs_ok h n bs \<longleftrightarrow>
     (\<forall>i<length bs. \<forall>j<length (bs ! i). bs ! i ! j < length h \<and> length (h ! (bs ! i ! j)) = n)"
  by (simp add: refs_ok_def list_all_length)

lemma refs_ok_tail_preserved:
  "tail_preserved h h' \<Longrightarrow> refs_ok h n bs \<Longrightarrow> refs_ok h' n bs"
  by (simp add: refs_ok_iff tail_preserved_iff)

lemma tail_preserved_set:
  assumes "r < length h" "length src = WEB_AUDIO_BLOCK_SIZE" "WEB_AUDIO_BLOCK_SIZE \<le> length (h ! r)"
  shows "tail_preserved h (h[r := src @ drop (length src) (h ! r)])"
  using assms by (auto simp: tail_preserved_iff nth_list_update)

lemma inputBuffer_body_ok:
  assumes ok: "refs_ok h n ib" and n: "WEB_AUDIO_BLOCK_SIZE \<le> n"
    and fb: "fixed_block ib input"
    and i: "i < length ib" and j: "j < length (ib ! i)"
  shows "\<exists>h'. inputBuffer_body ib input i j h = (None, h') \<and> tail_preserved h h'
           \<and> refs_ok h' n ib"
proof -
  let ?r = "ib ! i ! j"
  have r: "?r < length h" "length (h ! ?r) = n"
    using ok i j by (auto simp: refs_ok_iff)
  have src: "input_at input i j = Inr (input ! i ! j)"
    using fixed_blockD(1,2) [OF fb] i j by (simp add: input_at_def)
  have len: "length (input ! i ! j) = WEB_AUDIO_BLOCK_SIZE"
    using fixed_blockD(3) [OF fb i j] .
  have body: "inputBuffer_body ib input i j h
      = (None, h[?r := input ! i ! j @ drop (length (input ! i ! j)) (h ! ?r)])"
    using r n len by (simp add: inputBuffer_body_def src f32_set_def)
  have tp: "tail_preserved h (h[?r := input ! i ! j @ drop (length (input ! i ! j)) (h ! ?r)])"
    using r n len by (intro tail_preserved_set) simp_all
  show ?thesis
    using body tp refs_ok_tail_preserved [OF tp ok] by simp
qed

lemma inputBuffer_row_ok:
  assumes ok: "refs_ok h n ib" and n: "WEB_AUDIO_BLOCK_SIZE \<le> n"
    and fb: "fixed_block ib input" and i: "i < length ib"
  shows "\<exists>h'. for_each (inputBuffer_body ib input i) [0..<length (ib ! i)] h = (None, h')
           \<and> tail_preserved h h' \<and> refs_ok h' n ib"
proof (rule for_each_invariant [where P = "\<lambda>k t. tail_preserved h t \<and> refs_ok t n ib"])
  show "tail_preserved h h \<and> refs_ok h n ib"
    using ok by (simp add: tail_preserved_refl)
next
  fix k t assume k: "k < length (ib ! i)" and t: "tail_preserved h t \<and> refs_ok t n ib"
  from inputBuffer_body_ok [OF _ n fb i k, of t] t
  obtain t' where "inputBuffer_body ib input i k t = (None, t')" "tail_preserved t t'"
      "refs_ok t' n ib" by blast
  with t show "\<exists>t'. inputBuffer_body ib input i k t = (None, t')
      \<and> tail_preserved h t' \<and> refs_ok t' n ib"
    by (blast intro: tail_preserved_trans)
qed

lemma inputBuffer_nested_ok:
  assumes ok: "refs_ok h n ib" and n: "WEB_AUDIO_BLOCK_SIZE \<le> n"
    and fb: "fixed_block ib input"
  shows "\<exists>h'. for_each (\<lambda>i. for_each (inputBuffer_body ib input i) [0..<length (ib ! i)])
               [0..<length ib] h = (None, h')
           \<and> tail_preserved h h' \<and> refs_ok h' n ib"
proof (rule for_each_invariant [where P = "\<lambda>k t. tail_preserved h t \<and> refs_ok t n ib"])
  show "tail_preserved h h \<and> refs_ok h n ib"
    using ok by (simp add: tail_preserved_refl)
next
  fix k t assume k: "k < length ib" and t: "tail_preserved h t \<and> refs_ok t n ib"
  from inputBuffer_row_ok [OF _ n fb k, of t] t
  obtain t' where "for_each (inputBuffer_body ib input k) [0..<length (ib ! k)] t = (None, t')"
      "tail_preserved t t'" "refs_ok t' n ib" by blast
  with t show "\<exists>t'. for_each (inputBuffer_body ib input k) [0..<length (ib ! k)] t = (None, t')
      \<and> tail_preserved h t' \<and> refs_ok t' n ib"
    by (blast intro: tail_preserved_trans)
qed

lemma inputBuffer_ok:
  assumes ok: "refs_ok (store st) n (inputBuffers st)" and n: "WEB_AUDIO_BLOCK_SIZE \<le> n"
    and fb: "fixed_block (inputBuffers st) input"
  shows "\<exists>h'. inputBuffer input st =
            (None, st\<lparr>store := h',
                      writePointer := writePointer st + WEB_AUDIO_BLOCK_SIZE,
                      accSteps := accSteps st + 1\<rparr>)
           \<and> tail_preserved (store st) h'"
  using inputBuffer_nested_ok [OF ok n fb]
  by (auto simp: inputBuffer_def Let_def)

lemma inputBuffer_empty:
  assumes "inputBuffers st = []"
  shows "inputBuffer input st =
            (None, st\<lparr>store := store st,
                      writePointer := writePointer st + WEB_AUDIO_BLOCK_SIZE,
                      accSteps := accSteps st + 1\<rparr>)"
  using assms by (simp add: inputBuffer_def)

section \<open>\<open>process\<close>, call by call\<close>

lemma inputBuffer_frame:
  assumes "inputBuffer input st = (r, st1)"
  shows "\<exists>h. (r = None \<and> st1 = st\<lparr>store := h,
                      writePointer := writePointer st + WEB_AUDIO_BLOCK_SIZE,
                      accSteps := accSteps st + 1\<rparr>)
           \<or> (r \<noteq> None \<and> st1 = st\<lparr>store := h\<rparr>)"
  using assms by (auto simp: inputBuffer_def Let_def split: prod.splits option.splits)

lemma outputShiftTo_frame:
  assumes "outputShiftTo outs st = (r, outs', st')"
  shows "(r = None \<and> st' = st\<lparr>readPointer := readPointer st + WEB_AUDIO_BLOCK_SIZE\<rparr>)
           \<or> (r \<noteq> None \<and> st' = st)"
  using assms by (auto simp: outputShiftTo_def split: prod.splits option.splits)

lemma call_processBuffered_eq:
  assumes "pb (inputBuffers st) (outputBuffers st) (user st, store st) = (r, u', h')"
  shows "call_processBuffered pb st =
     (r, st\<lparr>pbCalls := pbCalls st @
               [(deref (store st) (inputBuffers st), deref (store st) (outputBuffers st))],
            user := u', store := h'\<rparr>)"
  using assms by (simp add: call_processBuffered_def Let_def)

lemma process_drain:
  assumes "inputBuffer inputs st = (None, st1)" "readPointer st1 < hopSize st1"
    "fixed_block (outputBuffers st1) outputs"
  shows "process pb inputs outputs st =
     (Inr True, drained st1 outputs,
      st1\<lparr>readPointer := readPointer st1 + WEB_AUDIO_BLOCK_SIZE\<rparr>)"
  using assms by (simp add: process_def outputHasMore_def outputShiftTo_ok)

lemma process_not_ready:
  assumes "inputBuffer inputs st = (None, st1)" "hopSize st1 \<le> readPointer st1"
    "writePointer st1 < hopSize st1"
  shows "process pb inputs outputs st = (Inr True, outputs, st1)"
  using assms by (simp add: process_def outputHasMore_def inputHasEnough_def)

lemma process_stopped:
  assumes "inputBuffer inputs st = (None, st1)" "hopSize st1 \<le> readPointer st1"
    "hopSize st1 \<le> writePointer st1"
    "call_processBuffered pb st1 = (Inr False, st2)"
  shows "process pb inputs outputs st = (Inr False, outputs, st2)"
  using assms by (simp add: process_def outputHasMore_def inputHasEnough_def)

lemma process_processed:
  assumes "inputBuffer inputs st = (None, st1)" "hopSize st1 \<le> readPointer st1"
    "hopSize st1 \<le> writePointer st1"
    "call_processBuffered pb st1 = (Inr True, st2)"
    "fixed_block (outputBuffers st2) outputs"
  shows "process pb inputs outputs st =
     (Inr True, drained (resetPointers st2) outputs,
      st2\<lparr>readPointer := WEB_AUDIO_BLOCK_SIZE, writePointer := 0, accSteps := 0\<rparr>)"
  using assms
  by (simp add: process_def outputHasMore_def inputHasEnough_def outputShiftTo_ok
      resetPointers_def)

lemma drained_full_slice:
  assumes "i < length outs" "j < length (outs ! i)"
    "length (outs ! i ! j) = WEB_AUDIO_BLOCK_SIZE"
    "readPointer st + WEB_AUDIO_BLOCK_SIZE \<le> length (store st ! (outputBuffers st ! i ! j))"
  shows "drained st outs ! i ! j =
     take WEB_AUDIO_BLOCK_SIZE (drop (readPointer st) (store st ! (outputBuffers st ! i ! j)))"
  using assms by (simp add: drained_def subarray_take_drop Let_def)



text \<open>
  Claim C5. When the accumulate step has completed, no output is pending, a full hop
  has accumulated and \<open>processBuffered\<close> returns \<open>false\<close>, \<open>process\<close> returns
  \<open>false\<close>, the output block is untouched, and the pointers keep the values they had
  after the accumulate step: the read pointer unchanged, the write pointer advanced by
  one block.
\<close>

theorem process_stop:
  assumes acc: "inputBuffer inputs st = (None, st1)"
    and no_pending: "hopSize st1 \<le> readPointer st1"
    and full: "hopSize st1 \<le> writePointer st1"
    and fail: "pb (inputBuffers st1) (outputBuffers st1) (user st1, store st1) = (Inr False, u', h')"
  shows "process pb inputs outputs st =
           (Inr False, outputs,
            st1\<lparr>pbCalls := pbCalls st1 @
                   [(deref (store st1) (inputBuffers st1), deref (store st1) (outputBuffers st1))],
                user := u', store := h'\<rparr>)
         \<and> readPointer st1 = readPointer st
         \<and> writePointer st1 = writePointer st + WEB_AUDIO_BLOCK_SIZE"
proof -
  have "readPointer st1 = readPointer st"
      "writePointer st1 = writePointer st + WEB_AUDIO_BLOCK_SIZE"
    using inputBuffer_frame [OF acc] by auto
  then show ?thesis
    using process_stopped [OF acc no_pending full call_processBuffered_eq [of pb st1, OF fail]]
    by simp
qed

lemma run_not_ready:
  assumes "refs_ok (store st) (hopSize st) (inputBuffers st)"
    and "WEB_AUDIO_BLOCK_SIZE \<le> hopSize st"
    and "hopSize st \<le> readPointer st"
    and "writePointer st + length calls * WEB_AUDIO_BLOCK_SIZE < hopSize st"
    and "\<forall>c\<in>set calls. fixed_block (inputBuffers st) (fst c)"
  shows "\<exists>h'. run pb calls st =
            (map (\<lambda>c. (Inr True, snd c)) calls,
             st\<lparr>store := h',
                writePointer := writePointer st + length calls * WEB_AUDIO_BLOCK_SIZE,
                accSteps := accSteps st + length calls\<rparr>)
          \<and> tail_preserved (store st) h'"
  using assms
proof (induction calls arbitrary: st)
  case Nil
  show ?case by (rule exI [of _ "store st"]) (simp add: tail_preserved_refl)
next
  case (Cons c cs)
  from inputBuffer_ok [OF Cons.prems(1,2), of "fst c"] Cons.prems(5)
  obtain h1 where acc: "inputBuffer (fst c) st =
            (None, st\<lparr>store := h1,
                      writePointer := writePointer st + WEB_AUDIO_BLOCK_SIZE,
                      accSteps := accSteps st + 1\<rparr>)"
    and tp1: "tail_preserved (store st) h1" by auto
  let ?st1 = "st\<lparr>store := h1,
                      writePointer := writePointer st + WEB_AUDIO_BLOCK_SIZE,
                      accSteps := accSteps st + 1\<rparr>"
  have p: "process pb (fst c) (snd c) st = (Inr True, snd c, ?st1)"
    using Cons.prems(3,4) by (intro process_not_ready [OF acc]) simp_all
  have "\<exists>h'. run pb cs ?st1 =
            (map (\<lambda>c. (Inr True, snd c)) cs,
             ?st1\<lparr>store := h',
                writePointer := writePointer ?st1 + length cs * WEB_AUDIO_BLOCK_SIZE,
                accSteps := accSteps ?st1 + length cs\<rparr>)
          \<and> tail_preserved (store ?st1) h'"
    using Cons.prems refs_ok_tail_preserved [OF tp1 Cons.prems(1)]
    by (intro Cons.IH) simp_all
  then obtain h' where r: "run pb cs ?st1 =
            (map (\<lambda>c. (Inr True, snd c)) cs,
             ?st1\<lparr>store := h',
                writePointer := writePointer ?st1 + length cs * WEB_AUDIO_BLOCK_SIZE,
                accSteps := accSteps ?st1 + length cs\<rparr>)"
    and tp2: "tail_preserved h1 h'" by auto
  have "tail_preserved (store st) h'"
    using tp1 tp2 by (rule tail_preserved_trans)
  then show ?case
    using p r by (auto simp: add.assoc)
qed

lemma run_not_ready_empty:
  assumes "inputBuffers st = []"
    and "hopSize st \<le> readPointer st"
    and "writePointer st + length calls * WEB_AUDIO_BLOCK_SIZE < hopSize st"
  shows "run pb calls st =
            (map (\<lambda>c. (Inr True, snd c)) calls,
             st\<lparr>writePointer := writePointer st + length calls * WEB_AUDIO_BLOCK_SIZE,
                accSteps := accSteps st + length calls\<rparr>)"
  using assms
proof (induction calls arbitrary: st)
  case Nil
  show ?case by simp
next
  case (Cons c cs)
  let ?st1 = "st\<lparr>store := store st,
                      writePointer := writePointer st + WEB_AUDIO_BLOCK_SIZE,
                      accSteps := accSteps st + 1\<rparr>"
  have acc: "inputBuffer (fst c) st = (None, ?st1)"
    using Cons.prems(1) by (rule inputBuffer_empty)
  have p: "process pb (fst c) (snd c) st = (Inr True, snd c, ?st1)"
    using Cons.prems(2,3) by (intro process_not_ready [OF acc]) simp_all
  have "run pb cs ?st1 =
            (map (\<lambda>c. (Inr True, snd c)) cs,
             ?st1\<lparr>writePointer := writePointer ?st1 + length cs * WEB_AUDIO_BLOCK_SIZE,
                accSteps := accSteps ?st1 + length cs\<rparr>)"
    using Cons.prems by (intro Cons.IH) simp_all
  then show ?case
    using p by (simp add: add.assoc)
qed

lemma process_pbCalls_full:
  assumes acc: "inputBuffer inputs st = (None, st1)"
    and "hopSize st1 \<le> readPointer st1" "hopSize st1 \<le> writePointer st1"
  shows "pbCalls (snd (snd (process pb inputs outputs st))) =
     pbCalls st @ [(deref (store st1) (inputBuffers st1), deref (store st1) (outputBuffers st1))]"
proof -
  have eq: "pbCalls st1 = pbCalls st"
    using inputBuffer_frame [OF acc] by auto
  obtain r u' h' where pb: "pb (inputBuffers st1) (outputBuffers st1) (user st1, store st1) = (r, u', h')"
    by (cases "pb (inputBuffers st1) (outputBuffers st1) (user st1, store st1)") auto
  let ?st2 = "st1\<lparr>pbCalls := pbCalls st1 @
               [(deref (store st1) (inputBuffers st1), deref (store st1) (outputBuffers st1))],
            user := u', store := h'\<rparr>"
  have c: "call_processBuffered pb st1 = (r, ?st2)"
    using call_processBuffered_eq [of pb st1, OF pb] .
  obtain e outs' st3 where o: "outputShiftTo outputs (resetPointers ?st2) = (e, outs', st3)"
    by (cases "outputShiftTo outputs (resetPointers ?st2)") auto
  have "pbCalls st3 = pbCalls ?st2"
    using outputShiftTo_frame [OF o] by (auto simp: resetPointers_def)
  then have "pbCalls (snd (snd (process pb inputs outputs st))) = pbCalls ?st2"
    using assms(2,3)
    by (cases r; cases e)
       (auto simp: process_def acc outputHasMore_def inputHasEnough_def c o
             split: bool.splits sum.splits)
  then show ?thesis
    using eq by simp
qed

lemma drained_full:
  assumes fb: "fixed_block (outputBuffers st) outs"
    and ok: "refs_ok (store st) n (outputBuffers st)"
    and n: "readPointer st + WEB_AUDIO_BLOCK_SIZE \<le> n"
  shows "drained st outs =
     map (map (\<lambda>r. take WEB_AUDIO_BLOCK_SIZE (drop (readPointer st) (store st ! r))))
       (outputBuffers st)"
proof (rule nth_equalityI)
  show len: "length (drained st outs) = length (map (map (\<lambda>r. take WEB_AUDIO_BLOCK_SIZE
      (drop (readPointer st) (store st ! r)))) (outputBuffers st))"
    using fixed_blockD(1) [OF fb] by (simp add: drained_def)
  fix i assume "i < length (drained st outs)"
  then have i: "i < length (outputBuffers st)" and i': "i < length outs"
    using len by (simp_all add: drained_def)
  have row: "length (outs ! i) = length (outputBuffers st ! i)"
    using fixed_blockD(2) [OF fb i] .
  show "drained st outs ! i = map (map (\<lambda>r. take WEB_AUDIO_BLOCK_SIZE
      (drop (readPointer st) (store st ! r)))) (outputBuffers st) ! i"
  proof (rule nth_equalityI)
    show "length (drained st outs ! i) = length (map (map (\<lambda>r. take WEB_AUDIO_BLOCK_SIZE
      (drop (readPointer st) (store st ! r)))) (outputBuffers st) ! i)"
      using i i' row by (simp add: drained_def)
    fix j assume "j < length (drained st outs ! i)"
    then have j: "j < length (outputBuffers st ! i)" and j': "j < length (outs ! i)"
      using i' row by (simp_all add: drained_def)
    have "length (store st ! (outputBuffers st ! i ! j)) = n"
      using ok i j by (simp add: refs_ok_iff)
    then show "drained st outs ! i ! j = map (map (\<lambda>r. take WEB_AUDIO_BLOCK_SIZE
      (drop (readPointer st) (store st ! r)))) (outputBuffers st) ! i ! j"
      using drained_full_slice [of i outs j st] i' j' fixed_blockD(3) [OF fb i j] i j n by simp
  qed
qed

lemma refs_ok_constructor:
  "refs_ok (store (constructor hop ic cc u)) hop (inputBuffers (constructor hop ic cc u))"
proof -
  have "i * cc + j < ic * cc" if "i < ic" "j < cc" for i j
  proof -
    have "Suc i * cc \<le> ic * cc" using that by (intro mult_le_mono1) simp
    then show ?thesis using that by simp
  qed
  then show ?thesis
    by (simp add: constructor_eq refs_ok_iff fresh_rows_def)
qed

text \<open>
  Claim C6, amended. For a freshly constructed adapter whose hop size is \<open>n\<close> blocks,
  \<open>n > 0\<close>, the first \<open>n - 1\<close> calls return \<open>true\<close>, leave the output block as the
  host passed it and do not invoke \<open>processBuffered\<close>. The next call, the \<open>n\<close>-th,
  invokes \<open>processBuffered\<close> once and, when that succeeds, fills the output block with
  the first \<open>WEB_AUDIO_BLOCK_SIZE\<close> samples of every drain buffer.
\<close>

theorem initial_latency:
  assumes hop: "hop = n * WEB_AUDIO_BLOCK_SIZE" "0 < n"
    and len: "length calls = n - 1"
    and shapes: "\<forall>c\<in>set calls. fixed_block (inputBuffers (constructor hop ic cc u)) (fst c)"
  shows "\<exists>st'. run pb calls (constructor hop ic cc u) = (map (\<lambda>c. (Inr True, snd c)) calls, st')
      \<and> pbCalls st' = []
      \<and> inputBuffers st' = inputBuffers (constructor hop ic cc u)
      \<and> outputBuffers st' = outputBuffers (constructor hop ic cc u)
      \<and> (\<forall>ins outs. fixed_block (inputBuffers st') ins \<longrightarrow> fixed_block (outputBuffers st') outs \<longrightarrow>
           (\<exists>st1. inputBuffer ins st' = (None, st1)
              \<and> length (pbCalls (snd (snd (process pb ins outs st')))) = 1
              \<and> (\<forall>u' h'. pb (inputBuffers st1) (outputBuffers st1) (user st1, store st1)
                            = (Inr True, u', h')
                   \<longrightarrow> refs_ok h' hop (outputBuffers st1)
                   \<longrightarrow> fst (process pb ins outs st') = Inr True
                     \<and> fst (snd (process pb ins outs st'))
                        = map (map (\<lambda>r. take WEB_AUDIO_BLOCK_SIZE (h' ! r))) (outputBuffers st'))))"
proof -
  let ?st0 = "constructor hop ic cc u :: 'a adapter"
  have B: "WEB_AUDIO_BLOCK_SIZE \<le> hop" using hop by simp
  have f0: "hopSize ?st0 = hop" "readPointer ?st0 = hop" "writePointer ?st0 = 0"
      "pbCalls ?st0 = []" "outputBuffers ?st0 = inputBuffers ?st0"
    by (simp_all add: constructor_eq)
  have ok0: "refs_ok (store ?st0) (hopSize ?st0) (inputBuffers ?st0)"
    using refs_ok_constructor [of hop ic cc u] f0 by simp
  have lt: "writePointer ?st0 + length calls * WEB_AUDIO_BLOCK_SIZE < hopSize ?st0"
    using hop len f0 by (cases n) (simp_all add: WEB_AUDIO_BLOCK_SIZE_def)
  from run_not_ready [OF ok0 _ _ lt shapes, of pb] B f0
  obtain h1 where run1: "run pb calls ?st0 =
            (map (\<lambda>c. (Inr True, snd c)) calls,
             ?st0\<lparr>store := h1,
                writePointer := writePointer ?st0 + length calls * WEB_AUDIO_BLOCK_SIZE,
                accSteps := accSteps ?st0 + length calls\<rparr>)"
    and tp1: "tail_preserved (store ?st0) h1" by auto
  let ?st' = "?st0\<lparr>store := h1,
                writePointer := writePointer ?st0 + length calls * WEB_AUDIO_BLOCK_SIZE,
                accSteps := accSteps ?st0 + length calls\<rparr>"
  have wp': "writePointer ?st' + WEB_AUDIO_BLOCK_SIZE = hop"
    using hop len f0 by (cases n) simp_all
  have ok1: "refs_ok (store ?st') hop (inputBuffers ?st')"
    using refs_ok_tail_preserved [OF tp1 ok0] f0 by simp
  have nth: "\<exists>st1. inputBuffer ins ?st' = (None, st1)
              \<and> length (pbCalls (snd (snd (process pb ins outs ?st')))) = 1
              \<and> (\<forall>u' h'. pb (inputBuffers st1) (outputBuffers st1) (user st1, store st1)
                            = (Inr True, u', h')
                   \<longrightarrow> refs_ok h' hop (outputBuffers st1)
                   \<longrightarrow> fst (process pb ins outs ?st') = Inr True
                     \<and> fst (snd (process pb ins outs ?st'))
                        = map (map (\<lambda>r. take WEB_AUDIO_BLOCK_SIZE (h' ! r))) (outputBuffers ?st'))"
    if fi: "fixed_block (inputBuffers ?st') ins" and fo: "fixed_block (outputBuffers ?st') outs"
    for ins outs
  proof -
    from inputBuffer_ok [OF ok1 B fi]
    obtain h2 where acc: "inputBuffer ins ?st' =
            (None, ?st'\<lparr>store := h2,
                      writePointer := writePointer ?st' + WEB_AUDIO_BLOCK_SIZE,
                      accSteps := accSteps ?st' + 1\<rparr>)" by auto
    let ?st1 = "?st'\<lparr>store := h2,
                      writePointer := writePointer ?st' + WEB_AUDIO_BLOCK_SIZE,
                      accSteps := accSteps ?st' + 1\<rparr>"
    have np: "hopSize ?st1 \<le> readPointer ?st1" using f0 by simp
    have full: "hopSize ?st1 \<le> writePointer ?st1" using wp' f0 by simp
    have one: "length (pbCalls (snd (snd (process pb ins outs ?st')))) = 1"
      using process_pbCalls_full [OF acc np full, of pb outs] f0 by simp
    have res: "fst (process pb ins outs ?st') = Inr True
                     \<and> fst (snd (process pb ins outs ?st'))
                        = map (map (\<lambda>r. take WEB_AUDIO_BLOCK_SIZE (h' ! r))) (outputBuffers ?st')"
      if pb: "pb (inputBuffers ?st1) (outputBuffers ?st1) (user ?st1, store ?st1) = (Inr True, u', h')"
        and ok2: "refs_ok h' hop (outputBuffers ?st1)" for u' h'
    proof -
      let ?st2 = "?st1\<lparr>pbCalls := pbCalls ?st1 @
               [(deref (store ?st1) (inputBuffers ?st1), deref (store ?st1) (outputBuffers ?st1))],
            user := u', store := h'\<rparr>"
      have c: "call_processBuffered pb ?st1 = (Inr True, ?st2)"
        using call_processBuffered_eq [of pb ?st1, OF pb] .
      have fo2: "fixed_block (outputBuffers ?st2) outs" using fo by simp
      have p: "process pb ins outs ?st' =
         (Inr True, drained (resetPointers ?st2) outs,
          ?st2\<lparr>readPointer := WEB_AUDIO_BLOCK_SIZE, writePointer := 0, accSteps := 0\<rparr>)"
        using process_processed [OF acc np full c fo2] .
      have "drained (resetPointers ?st2) outs =
          map (map (\<lambda>r. take WEB_AUDIO_BLOCK_SIZE
             (drop (readPointer (resetPointers ?st2)) (store (resetPointers ?st2) ! r))))
            (outputBuffers (resetPointers ?st2))"
        using fo ok2 B by (intro drained_full [where n = hop]) (simp_all add: resetPointers_def)
      then show ?thesis
        using p by (simp add: resetPointers_def)
    qed
    show ?thesis
      using acc one res by blast
  qed
  show ?thesis
    using run1 nth f0 by (intro exI [of _ ?st']) simp
qed

lemma process_full_empty:
  assumes ib: "inputBuffers st = []" and ob: "outputBuffers st = []"
    and np: "hopSize st \<le> readPointer st"
    and full: "hopSize st \<le> writePointer st + WEB_AUDIO_BLOCK_SIZE"
  shows "process pb ins outs st =
     (case pb [] [] (user st, store st) of
        (r, u', h') \<Rightarrow>
          (let st2 = st\<lparr>writePointer := writePointer st + WEB_AUDIO_BLOCK_SIZE,
                         accSteps := accSteps st + 1,
                         pbCalls := pbCalls st @ [([], [])],
                         user := u', store := h'\<rparr>
           in case r of
                Inl e \<Rightarrow> (Inl e, outs, st2)
              | Inr False \<Rightarrow> (Inr False, outs, st2)
              | Inr True \<Rightarrow>
                  (case outputShiftTo outs (resetPointers st2) of
                     (Some e, outs', st3) \<Rightarrow> (Inl e, outs', st3)
                   | (None, outs', st3) \<Rightarrow> (Inr True, outs', st3))))"
proof -
  let ?st1 = "st\<lparr>store := store st,
                  writePointer := writePointer st + WEB_AUDIO_BLOCK_SIZE,
                  accSteps := accSteps st + 1\<rparr>"
  have acc: "inputBuffer ins st = (None, ?st1)"
    using ib by (rule inputBuffer_empty)
  obtain r u' h' where pb: "pb [] [] (user st, store st) = (r, u', h')"
    by (cases "pb [] [] (user st, store st)") auto
  have c: "call_processBuffered pb ?st1 =
      (r, ?st1\<lparr>pbCalls := pbCalls st @ [([], [])], user := u', store := h'\<rparr>)"
    using pb ib ob by (simp add: call_processBuffered_def Let_def deref_def)
  show ?thesis
    using np full acc c pb
    by (cases r)
       (simp_all add: process_def outputHasMore_def inputHasEnough_def Let_def
          split: bool.splits)
qed

text \<open>
  Claim C10. With \<open>inputCount = 0\<close> and \<open>channelCount = 0\<close> both buffer sets are
  empty. The accumulate step of every call still advances the write pointer by one
  block, whatever blocks the host passes, so that the calls before call number
  \<open>\<lceil>hopSize / 128\<rceil>\<close> return \<open>true\<close> without invoking \<open>processBuffered\<close>: the
  adapter they leave is the constructed one with only the write pointer advanced, the
  same for every \<open>processBuffered\<close>. Call number \<open>\<lceil>hopSize / 128\<rceil>\<close> invokes
  \<open>processBuffered\<close> on two empty buffer sets, and what the call returns is decided by
  what \<open>processBuffered\<close> does there: its exception is the call's exception, its
  \<open>false\<close> is the call's \<open>false\<close>, and on \<open>true\<close> the call resets the pointers and
  drains; the subclass state and the store are the ones \<open>processBuffered\<close> left.
\<close>

theorem default_topology:
  assumes hop: "0 < hop"
    and len: "length calls < (hop + WEB_AUDIO_BLOCK_SIZE - 1) div WEB_AUDIO_BLOCK_SIZE"
  shows "\<exists>st'. run pb calls (constructor hop 0 0 u) = (map (\<lambda>c. (Inr True, snd c)) calls, st')
      \<and> st' = (constructor hop 0 0 u)
                 \<lparr>writePointer := length calls * WEB_AUDIO_BLOCK_SIZE,
                  accSteps := length calls\<rparr>
      \<and> pbCalls st' = [] \<and> user st' = u \<and> store st' = []
      \<and> inputBuffers st' = [] \<and> outputBuffers st' = []
      \<and> writePointer st' = length calls * WEB_AUDIO_BLOCK_SIZE
      \<and> (\<forall>ins. fst (inputBuffer ins st') = None
             \<and> writePointer (snd (inputBuffer ins st'))
                 = writePointer st' + WEB_AUDIO_BLOCK_SIZE)
      \<and> (length calls + 1 = (hop + WEB_AUDIO_BLOCK_SIZE - 1) div WEB_AUDIO_BLOCK_SIZE \<longrightarrow>
           (\<forall>ins outs.
              pbCalls (snd (snd (process pb ins outs st'))) = [([], [])]
              \<and> process pb ins outs st' =
                  (case pb [] [] (u, []) of
                     (r, u', h') \<Rightarrow>
                       (let st2 = st'\<lparr>writePointer := writePointer st' + WEB_AUDIO_BLOCK_SIZE,
                                       accSteps := accSteps st' + 1,
                                       pbCalls := [([], [])],
                                       user := u', store := h'\<rparr>
                        in case r of
                             Inl e \<Rightarrow> (Inl e, outs, st2)
                           | Inr False \<Rightarrow> (Inr False, outs, st2)
                           | Inr True \<Rightarrow>
                               (case outputShiftTo outs (resetPointers st2) of
                                  (Some e, outs', st3) \<Rightarrow> (Inl e, outs', st3)
                                | (None, outs', st3) \<Rightarrow> (Inr True, outs', st3))))))"
proof -
  let ?st0 = "constructor hop 0 0 u :: 'a adapter"
  have f0: "hopSize ?st0 = hop" "readPointer ?st0 = hop" "writePointer ?st0 = 0"
      "pbCalls ?st0 = []" "outputBuffers ?st0 = []" "inputBuffers ?st0 = []"
      "user ?st0 = u" "store ?st0 = []" "accSteps ?st0 = 0"
    by (simp_all add: constructor_eq fresh_rows_def)
  have lt: "length calls * WEB_AUDIO_BLOCK_SIZE < hop"
    using len by (simp add: WEB_AUDIO_BLOCK_SIZE_def)
  let ?st' = "?st0\<lparr>writePointer := writePointer ?st0 + length calls * WEB_AUDIO_BLOCK_SIZE,
                accSteps := accSteps ?st0 + length calls\<rparr>"
  have run1: "run pb calls ?st0 = (map (\<lambda>c. (Inr True, snd c)) calls, ?st')"
    using lt f0 by (intro run_not_ready_empty) simp_all
  have st': "?st' = ?st0\<lparr>writePointer := length calls * WEB_AUDIO_BLOCK_SIZE,
                  accSteps := length calls\<rparr>"
    using f0 by simp
  have last: "pbCalls (snd (snd (process pb ins outs ?st'))) = [([], [])]
      \<and> process pb ins outs ?st' =
                  (case pb [] [] (u, []) of
                     (r, u', h') \<Rightarrow>
                       (let st2 = ?st'\<lparr>writePointer := writePointer ?st' + WEB_AUDIO_BLOCK_SIZE,
                                       accSteps := accSteps ?st' + 1,
                                       pbCalls := [([], [])],
                                       user := u', store := h'\<rparr>
                        in case r of
                             Inl e \<Rightarrow> (Inl e, outs, st2)
                           | Inr False \<Rightarrow> (Inr False, outs, st2)
                           | Inr True \<Rightarrow>
                               (case outputShiftTo outs (resetPointers st2) of
                                  (Some e, outs', st3) \<Rightarrow> (Inl e, outs', st3)
                                | (None, outs', st3) \<Rightarrow> (Inr True, outs', st3))))"
    if m: "length calls + 1 = (hop + WEB_AUDIO_BLOCK_SIZE - 1) div WEB_AUDIO_BLOCK_SIZE"
    for ins outs
  proof -
    let ?st1 = "?st'\<lparr>store := store ?st',
                      writePointer := writePointer ?st' + WEB_AUDIO_BLOCK_SIZE,
                      accSteps := accSteps ?st' + 1\<rparr>"
    have acc: "inputBuffer ins ?st' = (None, ?st1)"
      using f0 by (intro inputBuffer_empty) simp
    have le: "hop \<le> (length calls + 1) * WEB_AUDIO_BLOCK_SIZE"
      using m by (simp add: WEB_AUDIO_BLOCK_SIZE_def)
    then have full: "hopSize ?st1 \<le> writePointer ?st1" using f0 by simp
    have np: "hopSize ?st1 \<le> readPointer ?st1" using f0 by simp
    have log: "pbCalls (snd (snd (process pb ins outs ?st'))) = [([], [])]"
      using process_pbCalls_full [OF acc np full, of pb outs] f0 by (simp add: deref_def)
    have ib': "inputBuffers ?st' = []" and ob': "outputBuffers ?st' = []"
      and np': "hopSize ?st' \<le> readPointer ?st'"
      and full': "hopSize ?st' \<le> writePointer ?st' + WEB_AUDIO_BLOCK_SIZE"
      using f0 le by simp_all
    show ?thesis
      using log process_full_empty [OF ib' ob' np' full', of pb ins outs] f0
      by simp
  qed
  have step: "fst (inputBuffer ins ?st') = None
             \<and> writePointer (snd (inputBuffer ins ?st'))
                 = writePointer ?st' + WEB_AUDIO_BLOCK_SIZE" for ins
    using inputBuffer_empty [of ?st' ins] f0 by simp
  have props: "pbCalls ?st' = []" "user ?st' = u" "store ?st' = []"
      "inputBuffers ?st' = []" "outputBuffers ?st' = []"
      "writePointer ?st' = length calls * WEB_AUDIO_BLOCK_SIZE"
    using f0 by simp_all
  show ?thesis
    using run1 st' props step last by (intro exI [of _ ?st'] conjI impI allI) blast+
qed

lemmas eval_defs =
  constructor_eq fresh_rows_def inputBuffer_def inputBuffer_body_def input_at_def f32_set_def
  outputShiftTo_def outputShiftTo_body_def subarray_take_drop process_def
  call_processBuffered_def outputHasMore_def inputHasEnough_def resetPointers_def deref_def
  WEB_AUDIO_BLOCK_SIZE_def fixed_block_def refs_ok_def Let_def

theorem process_stop_witness:
  "inputBuffer [[replicate 128 1]] (constructor 128 1 1 ())
     = (None, \<lparr>hopSize = 128, outputBuffers = [[0]], inputBuffers = [[0]],
               readPointer = 128, writePointer = 128, store = [replicate 128 1],
               user = (), pbCalls = [], accSteps = 1\<rparr>)
   \<and> process pb_false [[replicate 128 1]] [[replicate 128 9]] (constructor 128 1 1 ())
     = (Inr False, [[replicate 128 9]],
        \<lparr>hopSize = 128, outputBuffers = [[0]], inputBuffers = [[0]],
         readPointer = 128, writePointer = 128, store = [replicate 128 1],
         user = (), pbCalls = [([[replicate 128 1]], [[replicate 128 1]])], accSteps = 1\<rparr>)"
proof -
  let ?st1 = "\<lparr>hopSize = 128, outputBuffers = [[0]], inputBuffers = [[0]],
               readPointer = 128, writePointer = 128, store = [replicate 128 1],
               user = (), pbCalls = [], accSteps = 1\<rparr> :: unit adapter"
  have acc: "inputBuffer [[replicate 128 1]] (constructor 128 1 1 ()) = (None, ?st1)"
    by (simp add: constructor_eq fresh_rows_def inputBuffer_def inputBuffer_body_def
        input_at_def f32_set_def WEB_AUDIO_BLOCK_SIZE_def Let_def)
  have np: "hopSize ?st1 \<le> readPointer ?st1" and full: "hopSize ?st1 \<le> writePointer ?st1"
    by simp_all
  have fail: "pb_false (inputBuffers ?st1) (outputBuffers ?st1) (user ?st1, store ?st1)
      = (Inr False, (), [replicate 128 1])"
    by (simp add: pb_false_def)
  show ?thesis
    using process_stop [where pb = pb_false and outputs = "[[replicate 128 9]]",
        OF acc np full fail] acc
    by (simp add: deref_def)
qed

theorem default_topology_witness:
  "0 < (200::nat)
   \<and> length [([[replicate 128 1]], [[replicate 128 9]])]
       < (200 + WEB_AUDIO_BLOCK_SIZE - 1) div WEB_AUDIO_BLOCK_SIZE
   \<and> fst (run processBuffered_default [([[replicate 128 1]], [[replicate 128 9]])]
            (constructor 200 0 0 ()))
       = [(Inr True, [[replicate 128 9]])]
   \<and> pbCalls (snd (run processBuffered_default [([[replicate 128 1]], [[replicate 128 9]])]
            (constructor 200 0 0 ()))) = []
   \<and> pbCalls (snd (snd (process processBuffered_default [[replicate 128 2]] [[replicate 128 9]]
        (snd (run processBuffered_default [([[replicate 128 1]], [[replicate 128 9]])]
            (constructor 200 0 0 ()))))))
       = [([], [])]
   \<and> process processBuffered_default [[replicate 128 2]] [[replicate 128 9]]
        (snd (run processBuffered_default [([[replicate 128 1]], [[replicate 128 9]])]
            (constructor 200 0 0 ())))
       = (Inl UserError, [[replicate 128 9]],
          \<lparr>hopSize = 200, outputBuffers = [], inputBuffers = [],
           readPointer = 200, writePointer = 256, store = [], user = (),
           pbCalls = [([], [])], accSteps = 2\<rparr>)
   \<and> process pb_false [[replicate 128 2]] [[replicate 128 9]]
        (snd (run pb_false [([[replicate 128 1]], [[replicate 128 9]])]
            (constructor 200 0 0 ())))
       = (Inr False, [[replicate 128 9]],
          \<lparr>hopSize = 200, outputBuffers = [], inputBuffers = [],
           readPointer = 200, writePointer = 256, store = [], user = (),
           pbCalls = [([], [])], accSteps = 2\<rparr>)
   \<and> fst (process (pb_fill 5) [[replicate 128 2]] []
        (snd (run (pb_fill 5) [([[replicate 128 1]], [[replicate 128 9]])]
            (constructor 200 0 0 ()))))
       = Inr True"
proof -
  let ?calls = "[([[replicate 128 1]], [[replicate 128 9]])] :: (block \<times> block) list"
  let ?st' = "\<lparr>hopSize = 200, outputBuffers = [], inputBuffers = [],
           readPointer = 200, writePointer = 128, store = [], user = (),
           pbCalls = [], accSteps = 1\<rparr> :: unit adapter"
  have h1: "0 < (200::nat)" by simp
  have h2: "length ?calls < (200 + WEB_AUDIO_BLOCK_SIZE - 1) div WEB_AUDIO_BLOCK_SIZE"
    by (simp add: WEB_AUDIO_BLOCK_SIZE_def)
  have h3: "length ?calls + 1 = (200 + WEB_AUDIO_BLOCK_SIZE - 1) div WEB_AUDIO_BLOCK_SIZE"
    by (simp add: WEB_AUDIO_BLOCK_SIZE_def)
  have c: "(constructor 200 0 0 ())\<lparr>writePointer := length ?calls * WEB_AUDIO_BLOCK_SIZE,
                  accSteps := length ?calls\<rparr> = ?st'"
    by (simp add: constructor_eq fresh_rows_def WEB_AUDIO_BLOCK_SIZE_def)
  have inst: "run pb ?calls (constructor 200 0 0 ()) = ([(Inr True, [[replicate 128 9]])], ?st')
      \<and> (\<forall>ins outs.
              pbCalls (snd (snd (process pb ins outs ?st'))) = [([], [])]
              \<and> process pb ins outs ?st' =
                  (case pb [] [] ((), []) of
                     (r, u', h') \<Rightarrow>
                       (let st2 = ?st'\<lparr>writePointer := writePointer ?st' + WEB_AUDIO_BLOCK_SIZE,
                                       accSteps := accSteps ?st' + 1,
                                       pbCalls := [([], [])],
                                       user := u', store := h'\<rparr>
                        in case r of
                             Inl e \<Rightarrow> (Inl e, outs, st2)
                           | Inr False \<Rightarrow> (Inr False, outs, st2)
                           | Inr True \<Rightarrow>
                               (case outputShiftTo outs (resetPointers st2) of
                                  (Some e, outs', st3) \<Rightarrow> (Inl e, outs', st3)
                                | (None, outs', st3) \<Rightarrow> (Inr True, outs', st3)))))"
    for pb :: "unit processBuffered"
  proof -
    from default_topology [OF h1 h2, of pb "()"] h3
    obtain st' where r: "run pb ?calls (constructor 200 0 0 ())
        = (map (\<lambda>c. (Inr True, snd c)) ?calls, st')"
      and e: "st' = (constructor 200 0 0 ())\<lparr>writePointer := length ?calls * WEB_AUDIO_BLOCK_SIZE,
                  accSteps := length ?calls\<rparr>"
      and l: "\<forall>ins outs.
              pbCalls (snd (snd (process pb ins outs st'))) = [([], [])]
              \<and> process pb ins outs st' =
                  (case pb [] [] ((), []) of
                     (r, u', h') \<Rightarrow>
                       (let st2 = st'\<lparr>writePointer := writePointer st' + WEB_AUDIO_BLOCK_SIZE,
                                       accSteps := accSteps st' + 1,
                                       pbCalls := [([], [])],
                                       user := u', store := h'\<rparr>
                        in case r of
                             Inl e \<Rightarrow> (Inl e, outs, st2)
                           | Inr False \<Rightarrow> (Inr False, outs, st2)
                           | Inr True \<Rightarrow>
                               (case outputShiftTo outs (resetPointers st2) of
                                  (Some e, outs', st3) \<Rightarrow> (Inl e, outs', st3)
                                | (None, outs', st3) \<Rightarrow> (Inr True, outs', st3))))"
      by blast
    have eq: "st' = ?st'" using e unfolding c .
    have r': "run pb ?calls (constructor 200 0 0 ()) = ([(Inr True, [[replicate 128 9]])], ?st')"
      using r unfolding eq by simp
    show ?thesis
      using r' l [unfolded eq] by (rule conjI)
  qed
  have d: "snd (run processBuffered_default ?calls (constructor 200 0 0 ())) = ?st'"
      "fst (run processBuffered_default ?calls (constructor 200 0 0 ()))
         = [(Inr True, [[replicate 128 9]])]"
    using inst [of processBuffered_default] by simp_all
  have f: "snd (run pb_false ?calls (constructor 200 0 0 ())) = ?st'"
    using inst [of pb_false] by simp
  have g: "snd (run (pb_fill 5) ?calls (constructor 200 0 0 ())) = ?st'"
    using inst [of "pb_fill 5"] by simp
  have p1: "process processBuffered_default [[replicate 128 2]] [[replicate 128 9]] ?st'
       = (Inl UserError, [[replicate 128 9]],
          \<lparr>hopSize = 200, outputBuffers = [], inputBuffers = [],
           readPointer = 200, writePointer = 256, store = [], user = (),
           pbCalls = [([], [])], accSteps = 2\<rparr>)"
    using inst [of processBuffered_default]
    by (simp add: processBuffered_default_def WEB_AUDIO_BLOCK_SIZE_def)
  have p1': "pbCalls (snd (snd (process processBuffered_default [[replicate 128 2]]
      [[replicate 128 9]] ?st'))) = [([], [])]"
    using inst [of processBuffered_default] by blast
  have p2: "process pb_false [[replicate 128 2]] [[replicate 128 9]] ?st'
       = (Inr False, [[replicate 128 9]],
          \<lparr>hopSize = 200, outputBuffers = [], inputBuffers = [],
           readPointer = 200, writePointer = 256, store = [], user = (),
           pbCalls = [([], [])], accSteps = 2\<rparr>)"
    using inst [of pb_false]
    by (simp add: pb_false_def WEB_AUDIO_BLOCK_SIZE_def)
  have p3: "fst (process (pb_fill 5) [[replicate 128 2]] [] ?st') = Inr True"
    using inst [of "pb_fill 5"]
    by (simp add: pb_fill_def outputShiftTo_def Let_def)
  show ?thesis
    unfolding d f g using h1 h2 p1 p1' p2 p3 by (intro conjI) simp_all
qed

text \<open>
  Claim C6 as stated fails for a hop of one block: the first call already delivers what
  \<open>processBuffered\<close> produced.
\<close>

theorem initial_latency_counterexample:
  "128 = 1 * WEB_AUDIO_BLOCK_SIZE
   \<and> fst (snd (process (pb_fill 5) [[replicate 128 1]] [[replicate 128 0]]
                (constructor 128 1 1 ()))) = [[replicate 128 5]]
   \<and> [[replicate 128 5]] \<noteq> [[replicate 128 (0::sample)]]"
  by (simp add: eval_defs pb_fill_def drained_def)

text \<open>
  Claim C1 on the code: \<open>_inputBuffer\<close> calls \<open>set\<close> without an offset, so every
  block lands at index \<open>0\<close>. With a hop of two blocks, \<open>processBuffered\<close> is invoked
  once, on the second call, and receives the second block followed by zeros, not the
  first block followed by the second.
\<close>

theorem accumulate_overwrites:
  "map fst (pbCalls (snd (run pb_false
       [([[replicate 128 1]], [[replicate 128 0]]), ([[replicate 128 2]], [[replicate 128 0]])]
       (constructor 256 1 1 ()))))
     = [[[replicate 128 2 @ replicate 128 0]]]
   \<and> [[[replicate 128 2 @ replicate 128 0]]]
       \<noteq> [[[replicate 128 1 @ replicate 128 (2::sample)]]]"
  by (simp add: eval_defs pb_false_def)

text \<open>
  Claim C2 on the code: \<open>{ ...this._inputBuffers }\<close> copies the references, so the
  drain buffers are the accumulation buffers, and the accumulate step changes the
  contents of the drain buffer set.
\<close>

theorem drain_aliases_accumulation:
  "outputBuffers (constructor 256 1 1 ()) = inputBuffers (constructor 256 1 1 ())
   \<and> deref (store (constructor 256 1 1 ())) (outputBuffers (constructor 256 1 1 ()))
       = [[replicate 256 0]]
   \<and> deref (store (snd (inputBuffer [[replicate 128 1]] (constructor 256 1 1 ()))))
         (outputBuffers (snd (inputBuffer [[replicate 128 1]] (constructor 256 1 1 ()))))
       = [[replicate 128 1 @ replicate 128 0]]"
  by (simp add: eval_defs)

lemma setInputAndChannelCount_aliases:
  "outputBuffers (setInputAndChannelCount ic cc st) = inputBuffers (setInputAndChannelCount ic cc st)"
  by (simp add: setInputAndChannelCount_eq)

section \<open>Runs of calls\<close>

lemma dvd_next_block:
  fixes b :: nat
  assumes "b dvd h" "b dvd x" "x < h"
  shows "x + b \<le> h"
proof -
  obtain p q where p: "h = b * p" and q: "x = b * q"
    using assms by (auto simp: dvd_def)
  have "q < p" using assms(3) p q by simp
  then have "b * Suc q \<le> b * p" by (intro mult_le_mono2) simp
  then show ?thesis using p q by simp
qed

lemma pointers_inv_bounded: "pointers_inv st \<Longrightarrow> pointers_bounded st"
  by (auto simp: pointers_inv_def pointers_bounded_def)

lemma process_pointers:
  assumes inv: "pointers_inv st"
    and p: "process pb ins outs st = (r, outs', st')"
  shows "hopSize st' = hopSize st \<and> pointers_bounded st' \<and> (r = Inr True \<longrightarrow> pointers_inv st')"
proof -
  obtain e st1 where acc: "inputBuffer ins st = (e, st1)"
    by (cases "inputBuffer ins st") auto
  note f1 = inputBuffer_frame [OF acc]
  show ?thesis
  proof (cases e)
    case (Some a)
    then have "st' = st1" "r = Inl a" using p acc by (simp_all add: process_def)
    then show ?thesis
      using f1 Some inv by (auto simp: pointers_inv_def pointers_bounded_def)
  next
    case None
    then obtain h where st1: "st1 = st\<lparr>store := h,
                      writePointer := writePointer st + WEB_AUDIO_BLOCK_SIZE,
                      accSteps := accSteps st + 1\<rparr>"
      using f1 by auto
    have dvd: "WEB_AUDIO_BLOCK_SIZE dvd hopSize st"
        "WEB_AUDIO_BLOCK_SIZE dvd writePointer st + WEB_AUDIO_BLOCK_SIZE"
      using inv by (simp_all add: pointers_inv_def)
    show ?thesis
    proof (cases "readPointer st < hopSize st")
      case True
      obtain e2 outs2 st2 where o: "outputShiftTo outs st1 = (e2, outs2, st2)"
        by (cases "outputShiftTo outs st1") auto
      have rp: "readPointer st = writePointer st + WEB_AUDIO_BLOCK_SIZE"
        using inv True by (auto simp: pointers_inv_def)
      have nxt: "readPointer st + WEB_AUDIO_BLOCK_SIZE \<le> hopSize st"
        using dvd_next_block [OF dvd(1) _ True] dvd(2) rp by simp
      have res: "st' = st2" "r = (case e2 of None \<Rightarrow> Inr True | Some a \<Rightarrow> Inl a)"
        using p acc None True st1 o
        by (auto simp: process_def outputHasMore_def split: option.splits)
      show ?thesis
        using outputShiftTo_frame [OF o] res st1 inv rp nxt
        by (cases e2) (auto simp: pointers_inv_def pointers_bounded_def)
    next
      case False
      then have rp: "readPointer st = hopSize st"
        using inv by (auto simp: pointers_inv_def)
      show ?thesis
      proof (cases "writePointer st + WEB_AUDIO_BLOCK_SIZE < hopSize st")
        case True
        then have res: "st' = st1" "r = Inr True"
          using p acc None False st1
          by (auto simp: process_def outputHasMore_def inputHasEnough_def)
        have "writePointer st + WEB_AUDIO_BLOCK_SIZE + WEB_AUDIO_BLOCK_SIZE \<le> hopSize st"
          using dvd_next_block [OF dvd True] .
        then show ?thesis
          using res st1 inv rp by (auto simp: pointers_inv_def pointers_bounded_def)
      next
        case full: False
        then have wp: "writePointer st + WEB_AUDIO_BLOCK_SIZE = hopSize st"
          using inv by (auto simp: pointers_inv_def)
        obtain r0 st2 where c: "call_processBuffered pb st1 = (r0, st2)"
          by (cases "call_processBuffered pb st1") auto
        then have st2: "hopSize st2 = hopSize st1" "readPointer st2 = readPointer st1"
            "writePointer st2 = writePointer st1" "accSteps st2 = accSteps st1"
          by (auto simp: call_processBuffered_def Let_def split: prod.splits)
        obtain e3 outs3 st3 where o: "outputShiftTo outs (resetPointers st2) = (e3, outs3, st3)"
          by (cases "outputShiftTo outs (resetPointers st2)") auto
        note f3 = outputShiftTo_frame [OF o]
        have base: "process pb ins outs st =
            (case r0 of Inl e \<Rightarrow> (Inl e, outs, st2)
             | Inr False \<Rightarrow> (Inr False, outs, st2)
             | Inr True \<Rightarrow> (case e3 of None \<Rightarrow> (Inr True, outs3, st3)
                                       | Some e \<Rightarrow> (Inl e, outs3, st3)))"
          using acc None False full st1 c o
          by (auto simp: process_def outputHasMore_def inputHasEnough_def
                split: sum.splits bool.splits option.splits)
        show ?thesis
        proof (cases r0)
          case (Inl a)
          then have "st' = st2" "r = Inl a" using p base by simp_all
          then show ?thesis
            using st2 st1 inv rp wp by (auto simp: pointers_inv_def pointers_bounded_def)
        next
          case (Inr b)
          show ?thesis
          proof (cases b)
            case False
            then have "st' = st2" "r = Inr False" using p base Inr by simp_all
            then show ?thesis
              using st2 st1 inv rp wp by (auto simp: pointers_inv_def pointers_bounded_def)
          next
            case True
            then have "st' = st3" "r = (case e3 of None \<Rightarrow> Inr True | Some a \<Rightarrow> Inl a)"
              using p base Inr by (auto split: option.splits)
            then show ?thesis
              using f3 st2 st1 inv rp wp
              by (cases e3) (auto simp: pointers_inv_def pointers_bounded_def resetPointers_def)
          qed
        qed
      qed
    qed
  qed
qed

lemma run_pointers:
  assumes "pointers_inv st"
  shows "pointers_bounded (snd (run pb calls st))
       \<and> hopSize (snd (run pb calls st)) = hopSize st"
  using assms
proof (induction calls arbitrary: st)
  case Nil
  then show ?case by (simp add: pointers_inv_bounded)
next
  case (Cons c cs)
  obtain r outs' st' where p: "process pb (fst c) (snd c) st = (r, outs', st')"
    by (cases "process pb (fst c) (snd c) st") auto
  note s = process_pointers [OF Cons.prems p]
  show ?case
  proof (cases "r = Inr True")
    case True
    then have "pointers_inv st'" using s by simp
    from Cons.IH [OF this] show ?thesis
      using p True s by (auto split: prod.splits)
  next
    case False
    then show ?thesis using p s by simp
  qed
qed

lemma pointers_inv_constructor:
  assumes "hop = n * WEB_AUDIO_BLOCK_SIZE" "0 < n"
  shows "pointers_inv (constructor hop ic cc u)"
  using assms by (simp add: constructor_eq pointers_inv_def)

text \<open>
  Claim C7. For a hop size that is a positive multiple of the block size, after any
  sequence of calls on a newly constructed adapter (the host stops calling after the
  first call that does not return \<open>true\<close>), both pointers are between \<open>0\<close> and the
  hop size, and the write pointer equals the number of accumulate steps since the last
  reset times the block size.
\<close>

theorem pointer_bounds:
  assumes "hop = n * WEB_AUDIO_BLOCK_SIZE" "0 < n"
  shows "pointers_bounded (snd (run pb calls (constructor hop ic cc u)))
       \<and> hopSize (snd (run pb calls (constructor hop ic cc u))) = hop"
  using run_pointers [OF pointers_inv_constructor [OF assms], of pb calls ic cc u]
  by (simp add: constructor_eq)

lemma concat_slices:
  "concat (map (\<lambda>k. take b (drop (k * b) xs)) [0..<n]) = take (n * b) xs"
proof (induction n)
  case 0
  show ?case by simp
next
  case (Suc n)
  have "take (n * b + b) xs = take (n * b) xs @ take b (drop (n * b) xs)"
    by (rule take_add)
  then show ?case
    using Suc by (simp add: add.commute)
qed

lemma slice_tail_preserved:
  assumes tp: "tail_preserved D h" and r: "r < length D" and k: "0 < k"
  shows "take b (drop (k * WEB_AUDIO_BLOCK_SIZE) (h ! r))
       = take b (drop (k * WEB_AUDIO_BLOCK_SIZE) (D ! r))"
proof -
  obtain k' where k': "k = Suc k'" using k by (cases k) auto
  have "drop WEB_AUDIO_BLOCK_SIZE (h ! r) = drop WEB_AUDIO_BLOCK_SIZE (D ! r)"
    using tp r by (simp add: tail_preserved_iff)
  then have "drop (k' * WEB_AUDIO_BLOCK_SIZE) (drop WEB_AUDIO_BLOCK_SIZE (h ! r))
      = drop (k' * WEB_AUDIO_BLOCK_SIZE) (drop WEB_AUDIO_BLOCK_SIZE (D ! r))"
    by simp
  then show ?thesis
    using k' by (simp add: add.commute)
qed

lemma refs_ok_bound:
  assumes "refs_ok h n bs" "row \<in> set bs" "r \<in> set row"
  shows "r < length h"
  using assms by (auto simp: refs_ok_def list_all_iff)

lemma run_draining:
  assumes "hopSize st = n * WEB_AUDIO_BLOCK_SIZE"
    and "refs_ok (store st) (hopSize st) (inputBuffers st)"
    and "refs_ok (store st) (hopSize st) (outputBuffers st)"
    and "tail_preserved D (store st)"
    and "readPointer st = k * WEB_AUDIO_BLOCK_SIZE" and "0 < k"
    and "k + length calls \<le> n"
    and "\<forall>c\<in>set calls. fixed_block (inputBuffers st) (fst c)
                          \<and> fixed_block (outputBuffers st) (snd c)"
  shows "fst (run pb calls st) =
     map (\<lambda>m. (Inr True,
                 map (map (\<lambda>r. take WEB_AUDIO_BLOCK_SIZE (drop (m * WEB_AUDIO_BLOCK_SIZE) (D ! r))))
                   (outputBuffers st)))
       [k..<k + length calls]"
  using assms
proof (induction calls arbitrary: st k)
  case Nil
  show ?case by simp
next
  case (Cons c cs)
  let ?B = WEB_AUDIO_BLOCK_SIZE
  have kn: "Suc k \<le> n" using Cons.prems(7) by simp
  then have "Suc k * ?B \<le> n * ?B" by (intro mult_le_mono1)
  then have nxt: "readPointer st + ?B \<le> hopSize st"
    using Cons.prems(1,5) by simp
  have B: "?B \<le> hopSize st" using nxt by simp
  have fi: "fixed_block (inputBuffers st) (fst c)" and fo: "fixed_block (outputBuffers st) (snd c)"
    using Cons.prems(8) by simp_all
  from inputBuffer_ok [OF Cons.prems(2) B fi]
  obtain h1 where acc: "inputBuffer (fst c) st =
            (None, st\<lparr>store := h1, writePointer := writePointer st + ?B,
                      accSteps := accSteps st + 1\<rparr>)"
    and tp1: "tail_preserved (store st) h1" by auto
  let ?st1 = "st\<lparr>store := h1, writePointer := writePointer st + ?B,
                      accSteps := accSteps st + 1\<rparr>"
  have tpD: "tail_preserved D h1"
    using Cons.prems(4) tp1 by (rule tail_preserved_trans)
  have ok1: "refs_ok h1 (hopSize st) (inputBuffers st)" "refs_ok h1 (hopSize st) (outputBuffers st)"
    using refs_ok_tail_preserved [OF tp1] Cons.prems(2,3) by simp_all
  have pend: "readPointer ?st1 < hopSize ?st1"
    using nxt by (simp add: WEB_AUDIO_BLOCK_SIZE_def)
  have p: "process pb (fst c) (snd c) st =
     (Inr True, drained ?st1 (snd c), ?st1\<lparr>readPointer := readPointer ?st1 + ?B\<rparr>)"
    using fo by (intro process_drain [OF acc pend]) simp
  have d1: "drained ?st1 (snd c) =
     map (map (\<lambda>r. take ?B (drop (readPointer ?st1) (store ?st1 ! r)))) (outputBuffers ?st1)"
    using fo ok1 nxt by (intro drained_full [where n = "hopSize st"]) simp_all
  have lenD: "length D = length h1"
    using tpD by (simp add: tail_preserved_iff)
  have "map (map (\<lambda>r. take ?B (drop (k * ?B) (h1 ! r)))) (outputBuffers st)
      = map (map (\<lambda>r. take ?B (drop (k * ?B) (D ! r)))) (outputBuffers st)"
  proof (intro map_cong refl)
    fix row r assume "row \<in> set (outputBuffers st)" "r \<in> set row"
    then have "r < length D"
      using refs_ok_bound [OF ok1(2)] lenD by simp
    then show "take ?B (drop (k * ?B) (h1 ! r)) = take ?B (drop (k * ?B) (D ! r))"
      using slice_tail_preserved [OF tpD _ Cons.prems(6)] by simp
  qed
  then have d: "drained ?st1 (snd c) =
      map (map (\<lambda>r. take ?B (drop (k * ?B) (D ! r)))) (outputBuffers st)"
    using d1 Cons.prems(5) by simp
  let ?st2 = "?st1\<lparr>readPointer := readPointer ?st1 + ?B\<rparr>"
  have ih: "fst (run pb cs ?st2) =
     map (\<lambda>m. (Inr True,
                 map (map (\<lambda>r. take ?B (drop (m * ?B) (D ! r)))) (outputBuffers ?st2)))
       [Suc k..<Suc k + length cs]"
    using Cons.prems ok1 tpD by (intro Cons.IH) simp_all
  have "[k..<k + length (c # cs)] = k # [Suc k..<Suc k + length cs]"
    by (simp add: upt_conv_Cons del: upt_Suc)
  then show ?case
    using p d ih by (simp add: case_prod_unfold del: upt_Suc)
qed

text \<open>
  Claim C4. Let the hop size be \<open>n\<close> blocks, \<open>n > 0\<close>, and let the first of \<open>n\<close>
  consecutive calls be one on which the hop completes, nothing is pending and
  \<open>processBuffered\<close> succeeds, leaving the store \<open>D\<close>. Then all \<open>n\<close> calls return
  \<open>true\<close>, call number \<open>k\<close> (from \<open>0\<close>) delivers samples \<open>k * 128\<close> up to
  \<open>(k + 1) * 128\<close> of every drain buffer of \<open>D\<close>, and for every drain buffer the
  delivered blocks, concatenated in call order, are exactly its contents in \<open>D\<close>.
\<close>

theorem drain_order:
  assumes hop: "hopSize st = n * WEB_AUDIO_BLOCK_SIZE" "0 < n"
    and okI: "refs_ok (store st) (hopSize st) (inputBuffers st)"
    and no_pending: "hopSize st \<le> readPointer st"
    and full: "hopSize st \<le> writePointer st + WEB_AUDIO_BLOCK_SIZE"
    and len: "length calls = n"
    and shapes: "\<forall>c\<in>set calls. fixed_block (inputBuffers st) (fst c)
                                 \<and> fixed_block (outputBuffers st) (snd c)"
    and acc: "inputBuffer (fst (hd calls)) st = (None, st1)"
    and pb: "pb (inputBuffers st1) (outputBuffers st1) (user st1, store st1) = (Inr True, u', D)"
    and okD: "refs_ok D (hopSize st) (inputBuffers st)" "refs_ok D (hopSize st) (outputBuffers st)"
  shows "fst (run pb calls st) =
           map (\<lambda>k. (Inr True,
                 map (map (\<lambda>r. take WEB_AUDIO_BLOCK_SIZE (drop (k * WEB_AUDIO_BLOCK_SIZE) (D ! r))))
                   (outputBuffers st)))
             [0..<n]
       \<and> (\<forall>i<length (outputBuffers st). \<forall>j<length (outputBuffers st ! i).
            concat (map (\<lambda>k. snd (fst (run pb calls st) ! k) ! i ! j) [0..<n])
              = D ! (outputBuffers st ! i ! j))"
proof -
  let ?B = WEB_AUDIO_BLOCK_SIZE
  let ?F = "\<lambda>k. (Inr True :: error + bool,
                 map (map (\<lambda>r. take ?B (drop (k * ?B) (D ! r)))) (outputBuffers st))"
  obtain c cs where calls: "calls = c # cs"
    using len hop(2) by (cases calls) auto
  have B: "?B \<le> hopSize st" using hop by simp
  have fo: "fixed_block (outputBuffers st) (snd c)"
    using shapes calls by simp
  have acc': "inputBuffer (fst c) st = (None, st1)" using acc calls by simp
  note f1 = inputBuffer_frame [OF acc']
  have s1: "hopSize st1 = hopSize st" "readPointer st1 = readPointer st"
      "writePointer st1 = writePointer st + ?B" "inputBuffers st1 = inputBuffers st"
      "outputBuffers st1 = outputBuffers st"
    using f1 by auto
  let ?st2 = "st1\<lparr>pbCalls := pbCalls st1 @
               [(deref (store st1) (inputBuffers st1), deref (store st1) (outputBuffers st1))],
            user := u', store := D\<rparr>"
  have c: "call_processBuffered pb st1 = (Inr True, ?st2)"
    using call_processBuffered_eq [of pb st1, OF pb] .
  let ?st3 = "?st2\<lparr>readPointer := ?B, writePointer := 0, accSteps := 0\<rparr>"
  have p: "process pb (fst c) (snd c) st = (Inr True, drained (resetPointers ?st2) (snd c), ?st3)"
    using no_pending full fo s1 by (intro process_processed [OF acc' _ _ c]) simp_all
  have "drained (resetPointers ?st2) (snd c) =
      map (map (\<lambda>r. take ?B (drop (readPointer (resetPointers ?st2))
         (store (resetPointers ?st2) ! r)))) (outputBuffers (resetPointers ?st2))"
    using fo okD B s1
    by (intro drained_full [where n = "hopSize st"]) (simp_all add: resetPointers_def)
  then have d: "drained (resetPointers ?st2) (snd c) = snd (?F 0)"
    using s1 by (simp add: resetPointers_def)
  have rest: "fst (run pb cs ?st3) =
     map (\<lambda>m. (Inr True,
                 map (map (\<lambda>r. take ?B (drop (m * ?B) (D ! r)))) (outputBuffers ?st3)))
       [1..<1 + length cs]"
    using hop okD s1 shapes calls len
    by (intro run_draining [where n = n]) (simp_all add: tail_preserved_refl)
  have "[0..<n] = 0 # [1..<1 + length cs]"
    using len calls by (auto simp: upt_conv_Cons)
  then have run: "fst (run pb calls st) = map ?F [0..<n]"
    using p d rest calls s1 by (simp add: case_prod_unfold del: upt_Suc)
  have "concat (map (\<lambda>k. snd (fst (run pb calls st) ! k) ! i ! j) [0..<n])
              = D ! (outputBuffers st ! i ! j)"
    if i: "i < length (outputBuffers st)" and j: "j < length (outputBuffers st ! i)" for i j
  proof -
    have eq: "map (\<lambda>k. snd (fst (run pb calls st) ! k) ! i ! j) [0..<n]
        = map (\<lambda>k. take ?B (drop (k * ?B) (D ! (outputBuffers st ! i ! j)))) [0..<n]"
      using i j by (intro map_cong refl) (simp add: run del: upt_Suc)
    have l: "length (D ! (outputBuffers st ! i ! j)) = n * ?B"
      using okD(2) i j hop by (simp add: refs_ok_iff)
    have "concat (map (\<lambda>k. snd (fst (run pb calls st) ! k) ! i ! j) [0..<n])
        = concat (map (\<lambda>k. take ?B (drop (k * ?B) (D ! (outputBuffers st ! i ! j)))) [0..<n])"
      by (simp only: eq)
    also have "\<dots> = take (n * ?B) (D ! (outputBuffers st ! i ! j))"
      by (rule concat_slices)
    also have "\<dots> = D ! (outputBuffers st ! i ! j)"
      using l by simp
    finally show ?thesis .
  qed
  with run show ?thesis by blast
qed

theorem pointer_bounds_witness:
  "256 = 2 * WEB_AUDIO_BLOCK_SIZE \<and> 0 < (2::nat)
   \<and> pointers_bounded (snd (run (pb_fill 5)
        [([[replicate 128 1]], [[replicate 128 0]]), ([[replicate 128 2]], [[replicate 128 0]]),
         ([[replicate 128 3]], [[replicate 128 0]])] (constructor 256 1 1 ())))
   \<and> writePointer (snd (run (pb_fill 5)
        [([[replicate 128 1]], [[replicate 128 0]]), ([[replicate 128 2]], [[replicate 128 0]]),
         ([[replicate 128 3]], [[replicate 128 0]])] (constructor 256 1 1 ()))) = 128
   \<and> readPointer (snd (run (pb_fill 5)
        [([[replicate 128 1]], [[replicate 128 0]]), ([[replicate 128 2]], [[replicate 128 0]]),
         ([[replicate 128 3]], [[replicate 128 0]])] (constructor 256 1 1 ()))) = 256"
proof -
  have h: "256 = 2 * WEB_AUDIO_BLOCK_SIZE" "0 < (2::nat)"
    by (simp_all add: WEB_AUDIO_BLOCK_SIZE_def)
  have e: "snd (run (pb_fill 5)
        [([[replicate 128 1]], [[replicate 128 0]]), ([[replicate 128 2]], [[replicate 128 0]]),
         ([[replicate 128 3]], [[replicate 128 0]])] (constructor 256 1 1 ()))
      = \<lparr>hopSize = 256, outputBuffers = [[0]], inputBuffers = [[0]],
         readPointer = 256, writePointer = 128, store = [replicate 128 3 @ replicate 128 5],
         user = (), pbCalls = [([[replicate 128 2 @ replicate 128 0]],
                                [[replicate 128 2 @ replicate 128 0]])], accSteps = 1\<rparr>"
    by (simp add: eval_defs pb_fill_def)
  note t = pointer_bounds [OF h, of "pb_fill 5"
        "[([[replicate 128 1]], [[replicate 128 0]]), ([[replicate 128 2]], [[replicate 128 0]]),
         ([[replicate 128 3]], [[replicate 128 0]])]" 1 1 "()"]
  show ?thesis
    unfolding e using t [unfolded e] by (simp add: WEB_AUDIO_BLOCK_SIZE_def)
qed

theorem drain_order_witness:
  "hopSize \<lparr>hopSize = 256, outputBuffers = [[0]], inputBuffers = [[0]],
         readPointer = 256, writePointer = 128, store = [replicate 128 1 @ replicate 128 0],
         user = (), pbCalls = [], accSteps = 1\<rparr> = 2 * WEB_AUDIO_BLOCK_SIZE
   \<and> pb_ramp [[0]] [[0]] ((), [replicate 128 2 @ replicate 128 0])
       = (Inr True, (), [map of_nat [0..<256]])
   \<and> fst (run pb_ramp
        [([[replicate 128 2]], [[replicate 128 9]]), ([[replicate 128 3]], [[replicate 128 9]])]
        \<lparr>hopSize = 256, outputBuffers = [[0]], inputBuffers = [[0]],
         readPointer = 256, writePointer = 128, store = [replicate 128 1 @ replicate 128 0],
         user = (), pbCalls = [], accSteps = 1\<rparr>)
       = [(Inr True, [[map of_nat [0..<128]]]), (Inr True, [[map of_nat [128..<256]]])]
   \<and> map of_nat [0..<128] @ map of_nat [128..<256] = (map of_nat [0..<256] :: sample list)"
proof -
  let ?st = "\<lparr>hopSize = 256, outputBuffers = [[0]], inputBuffers = [[0]],
         readPointer = 256, writePointer = 128, store = [replicate 128 1 @ replicate 128 0],
         user = (), pbCalls = [], accSteps = 1\<rparr> :: unit adapter"
  let ?st1 = "\<lparr>hopSize = 256, outputBuffers = [[0]], inputBuffers = [[0]],
         readPointer = 256, writePointer = 256, store = [replicate 128 2 @ replicate 128 0],
         user = (), pbCalls = [], accSteps = 2\<rparr> :: unit adapter"
  let ?calls = "[([[replicate 128 2]], [[replicate 128 9]]),
                 ([[replicate 128 3]], [[replicate 128 9]])] :: (block \<times> block) list"
  let ?D = "[map of_nat [0..<256]] :: store"
  have hop: "hopSize ?st = 2 * WEB_AUDIO_BLOCK_SIZE" "0 < (2::nat)"
    by (simp_all add: WEB_AUDIO_BLOCK_SIZE_def)
  have okI: "refs_ok (store ?st) (hopSize ?st) (inputBuffers ?st)"
    by (simp add: refs_ok_def)
  have np: "hopSize ?st \<le> readPointer ?st" by simp
  have full: "hopSize ?st \<le> writePointer ?st + WEB_AUDIO_BLOCK_SIZE"
    by (simp add: WEB_AUDIO_BLOCK_SIZE_def)
  have len: "length ?calls = 2" by simp
  have shapes: "\<forall>c\<in>set ?calls. fixed_block (inputBuffers ?st) (fst c)
                                 \<and> fixed_block (outputBuffers ?st) (snd c)"
    by (simp add: fixed_block_def WEB_AUDIO_BLOCK_SIZE_def)
  have acc: "inputBuffer (fst (hd ?calls)) ?st = (None, ?st1)"
    by (simp add: inputBuffer_def inputBuffer_body_def input_at_def f32_set_def
        WEB_AUDIO_BLOCK_SIZE_def Let_def)
  have pb: "pb_ramp (inputBuffers ?st1) (outputBuffers ?st1) (user ?st1, store ?st1)
      = (Inr True, (), ?D)"
    by (simp add: pb_ramp_def del: upt_rec_numeral)
  have okD: "refs_ok ?D (hopSize ?st) (inputBuffers ?st)"
      "refs_ok ?D (hopSize ?st) (outputBuffers ?st)"
    by (simp_all add: refs_ok_def del: upt_rec_numeral)
  have two: "[0..<2] = [0, 1]"
    by (simp add: upt_conv_Cons)
  have app: "map of_nat [0..<128] @ map of_nat [128..<256] = (map of_nat [0..<256] :: sample list)"
    using upt_add_eq_append [of 0 128 128] by (simp del: upt_rec_numeral flip: map_append)
  have F: "map (\<lambda>k. (Inr True :: error + bool,
                 map (map (\<lambda>r. take WEB_AUDIO_BLOCK_SIZE (drop (k * WEB_AUDIO_BLOCK_SIZE) (?D ! r))))
                   (outputBuffers ?st))) [0..<2]
      = [(Inr True, [[map of_nat [0..<128]]]), (Inr True, [[map of_nat [128..<256]]])]"
    unfolding two
    by (simp add: WEB_AUDIO_BLOCK_SIZE_def take_map drop_map del: upt_rec_numeral)
  from drain_order [where pb = pb_ramp, OF hop okI np full len shapes acc pb okD]
  have r: "fst (run pb_ramp ?calls ?st)
      = [(Inr True, [[map of_nat [0..<128]]]), (Inr True, [[map of_nat [128..<256]]])]"
    unfolding F by (rule conjunct1)
  have pb': "pb_ramp [[0]] [[0]] ((), [replicate 128 2 @ replicate 128 0])
       = (Inr True, (), [map of_nat [0..<256]])"
    using pb by simp
  show ?thesis
    using hop(1) pb' r app by (intro conjI)
qed

theorem initial_latency_witness:
  "256 = 2 * WEB_AUDIO_BLOCK_SIZE \<and> 0 < (2::nat)
   \<and> length [([[replicate 128 (1::sample)]], [[replicate 128 (9::sample)]])] = 2 - 1
   \<and> fixed_block (inputBuffers (constructor 256 1 1 ())) [[replicate 128 1]]
   \<and> fst (run pb_ramp [([[replicate 128 1]], [[replicate 128 9]])] (constructor 256 1 1 ()))
       = [(Inr True, [[replicate 128 9]])]
   \<and> pbCalls (snd (run pb_ramp [([[replicate 128 1]], [[replicate 128 9]])]
        (constructor 256 1 1 ()))) = []
   \<and> fst (snd (process pb_ramp [[replicate 128 2]] [[replicate 128 9]]
        (snd (run pb_ramp [([[replicate 128 1]], [[replicate 128 9]])] (constructor 256 1 1 ())))))
       = [[map of_nat [0..<128]]]"
proof -
  let ?calls = "[([[replicate 128 1]], [[replicate 128 9]])] :: (block \<times> block) list"
  let ?st0 = "constructor 256 1 1 () :: unit adapter"
  let ?ins = "[[replicate 128 2]] :: block"
  let ?outs = "[[replicate 128 9]] :: block"
  let ?st' = "\<lparr>hopSize = 256, outputBuffers = [[0]], inputBuffers = [[0]],
         readPointer = 256, writePointer = 128, store = [replicate 128 1 @ replicate 128 0],
         user = (), pbCalls = [], accSteps = 1\<rparr> :: unit adapter"
  let ?st1 = "\<lparr>hopSize = 256, outputBuffers = [[0]], inputBuffers = [[0]],
         readPointer = 256, writePointer = 256, store = [replicate 128 2 @ replicate 128 0],
         user = (), pbCalls = [], accSteps = 2\<rparr> :: unit adapter"
  have h1: "256 = 2 * WEB_AUDIO_BLOCK_SIZE" and h2: "0 < (2::nat)"
    and h3: "length ?calls = 2 - 1"
    by (simp_all add: WEB_AUDIO_BLOCK_SIZE_def)
  have h4: "\<forall>c\<in>set ?calls. fixed_block (inputBuffers ?st0) (fst c)"
    by (simp add: constructor_eq fresh_rows_def fixed_block_def WEB_AUDIO_BLOCK_SIZE_def)
  have e: "run pb_ramp ?calls ?st0 = ([(Inr True, [[replicate 128 9]])], ?st')"
    by (simp add: eval_defs)
  from initial_latency [where pb = pb_ramp, OF h1 h2 h3 h4]
  obtain st' where run: "run pb_ramp ?calls ?st0 = (map (\<lambda>c. (Inr True, snd c)) ?calls, st')"
    and log: "pbCalls st' = []"
    and nth: "\<forall>ins outs. fixed_block (inputBuffers st') ins \<longrightarrow> fixed_block (outputBuffers st') outs \<longrightarrow>
           (\<exists>st1. inputBuffer ins st' = (None, st1)
              \<and> length (pbCalls (snd (snd (process pb_ramp ins outs st')))) = 1
              \<and> (\<forall>u' h'. pb_ramp (inputBuffers st1) (outputBuffers st1) (user st1, store st1)
                            = (Inr True, u', h')
                   \<longrightarrow> refs_ok h' 256 (outputBuffers st1)
                   \<longrightarrow> fst (process pb_ramp ins outs st') = Inr True
                     \<and> fst (snd (process pb_ramp ins outs st'))
                        = map (map (\<lambda>r. take WEB_AUDIO_BLOCK_SIZE (h' ! r))) (outputBuffers st')))"
    by blast
  have st': "st' = ?st'"
    using run unfolding e by simp
  have fi: "fixed_block (inputBuffers st') ?ins" and fo: "fixed_block (outputBuffers st') ?outs"
    unfolding st' by (simp_all add: fixed_block_def WEB_AUDIO_BLOCK_SIZE_def)
  from nth fi fo obtain st1 where acc: "inputBuffer ?ins st' = (None, st1)"
    and res: "\<forall>u' h'. pb_ramp (inputBuffers st1) (outputBuffers st1) (user st1, store st1)
                            = (Inr True, u', h')
                   \<longrightarrow> refs_ok h' 256 (outputBuffers st1)
                   \<longrightarrow> fst (process pb_ramp ?ins ?outs st') = Inr True
                     \<and> fst (snd (process pb_ramp ?ins ?outs st'))
                        = map (map (\<lambda>r. take WEB_AUDIO_BLOCK_SIZE (h' ! r))) (outputBuffers st')"
    by blast
  have "inputBuffer ?ins ?st' = (None, ?st1)"
    by (simp add: inputBuffer_def inputBuffer_body_def input_at_def f32_set_def
        WEB_AUDIO_BLOCK_SIZE_def Let_def)
  then have st1: "st1 = ?st1"
    using acc unfolding st' by simp
  have pb: "pb_ramp (inputBuffers st1) (outputBuffers st1) (user st1, store st1)
      = (Inr True, (), [map of_nat [0..<256]])"
    unfolding st1 by (simp add: pb_ramp_def del: upt_rec_numeral)
  have okD: "refs_ok [map of_nat [0..<256] :: f32array] 256 (outputBuffers st1)"
    unfolding st1 by (simp add: refs_ok_def del: upt_rec_numeral)
  from res pb okD
  have "fst (snd (process pb_ramp ?ins ?outs st'))
      = map (map (\<lambda>r. take WEB_AUDIO_BLOCK_SIZE ([map of_nat [0..<256]] ! r))) (outputBuffers st')"
    by blast
  also have "\<dots> = [[map of_nat [0..<128]]]"
    unfolding st' by (simp add: WEB_AUDIO_BLOCK_SIZE_def take_map del: upt_rec_numeral)
  finally have out: "fst (snd (process pb_ramp ?ins ?outs (snd (run pb_ramp ?calls ?st0))))
      = [[map of_nat [0..<128]]]"
    using run by simp
  have r1: "fst (run pb_ramp ?calls ?st0) = [(Inr True, [[replicate 128 9]])]"
    using run by simp
  have r2: "pbCalls (snd (run pb_ramp ?calls ?st0)) = []"
    using run log by simp
  have h4': "fixed_block (inputBuffers ?st0) [[replicate 128 1]]"
    using h4 by simp
  show ?thesis
    using h1 h2 h3 h4' r1 r2 out by (intro conjI)
qed

end
